theory Spec2Isabelle
  imports Main "HOL-Library.Multiset" "HOL-Library.Sublist"
begin

section \<open>The data model of DocumentFormatter.ts\<close>

text \<open>
  The interfaces of the source become records, its enum a datatype. A TypeScript
  \<^verbatim>\<open>number\<close> that holds a line, a column or an offset is an \<open>int\<close>. The field
  \<^verbatim>\<open>text\<close> of a region is called \<open>regionText\<close> here, and the fields \<^verbatim>\<open>file\<close> and
  \<^verbatim>\<open>name\<close> are \<open>regionFile\<close> and \<open>correctionName\<close>.
\<close>

datatype ScriptFileMarkerLevel = Information | Warning | Error

record ScriptRegion =
  regionFile :: string
  regionText :: string
  startLineNumber :: int
  startColumnNumber :: int
  startOffset :: int
  endLineNumber :: int
  endColumnNumber :: int
  endOffset :: int

record MarkerCorrection =
  correctionName :: string
  edits :: "ScriptRegion list"

record ScriptFileMarker =
  message :: string
  level :: ScriptFileMarkerLevel
  scriptRegion :: ScriptRegion
  correction :: MarkerCorrection

record ScriptFileMarkersRequestParams =
  filePath :: string
  settings :: string

text \<open>
  What can go wrong at run time: reading a property of \<^verbatim>\<open>undefined\<close> raises a
  TypeError, and a collaborator (the language client, the editor) may reject its
  Thenable with a reason of its own.
\<close>

datatype js_error = TypeError | Rejection string

text \<open>
  A field or expression that holds \<^verbatim>\<open>undefined\<close>, \<^verbatim>\<open>null\<close> or an object.
\<close>

datatype 'a js_ref = JsUndefined | JsNull | JsObject 'a

section \<open>Sorting and filtering the markers of one response\<close>

text \<open>
  \<^verbatim>\<open>m.correction.edits[0].startLineNumber\<close>: an empty \<^verbatim>\<open>edits\<close> array makes
  \<^verbatim>\<open>edits[0]\<close> undefined, and the read of its property raises.
\<close>

definition firstEdit :: "ScriptFileMarker \<Rightarrow> ScriptRegion option" where
  "firstEdit m = (case edits (correction m) of [] \<Rightarrow> None | e # _ \<Rightarrow> Some e)"

definition startLineOf :: "ScriptRegion option \<Rightarrow> js_error + int" where
  "startLineOf r = (case r of None \<Rightarrow> Inl TypeError | Some e \<Rightarrow> Inr (startLineNumber e))"

definition firstEditStartLine :: "ScriptFileMarker \<Rightarrow> js_error + int" where
  "firstEditStartLine m = startLineOf (firstEdit m)"

text \<open>
  The comparison function handed to \<^verbatim>\<open>markers.sort\<close> (lines 100 to 110). The sorting
  and the filtering loop read a marker only through its first edit's starting line, so
  both are written over any element type with the function \<open>line\<close> that reads that
  number; on markers \<open>line\<close> is \<open>firstEditStartLine\<close>. The same functions can
  then be run on markers paired with their position in the response.
\<close>

definition compareLines :: "('a \<Rightarrow> js_error + int) \<Rightarrow> 'a \<Rightarrow> 'a \<Rightarrow> js_error + int" where
  "compareLines line a b =
     (case line a of
        Inl err \<Rightarrow> Inl err
      | Inr leftOperand \<Rightarrow>
          (case line b of
             Inl err \<Rightarrow> Inl err
           | Inr rightOperand \<Rightarrow>
               Inr (if leftOperand < rightOperand then 1
                    else if leftOperand > rightOperand then - 1
                    else 0)))"

text \<open>
  \<^verbatim>\<open>Array.prototype.sort\<close> with a comparison function: the result has \<open>a\<close>
  before \<open>b\<close> when the function answers a negative number for \<open>(a, b)\<close>, and
  elements that compare equal keep their order (the sort is stable). For a consistent
  comparison function that result is unique, so a stable insertion sort computes it. An
  array of fewer than two elements is returned without a call of the comparison
  function; an exception of the comparison function leaves the sort.
\<close>

fun insertSorted :: "('a \<Rightarrow> 'a \<Rightarrow> js_error + int) \<Rightarrow> 'a \<Rightarrow> 'a list \<Rightarrow> js_error + 'a list" where
  "insertSorted cmp x [] = Inr [x]"
| "insertSorted cmp x (y # ys) =
     (case cmp x y of
        Inl err \<Rightarrow> Inl err
      | Inr c \<Rightarrow>
          if c \<le> 0 then Inr (x # y # ys)
          else (case insertSorted cmp x ys of
                  Inl err \<Rightarrow> Inl err
                | Inr zs \<Rightarrow> Inr (y # zs)))"

fun arraySort :: "('a \<Rightarrow> 'a \<Rightarrow> js_error + int) \<Rightarrow> 'a list \<Rightarrow> js_error + 'a list" where
  "arraySort cmp [] = Inr []"
| "arraySort cmp (x # xs) =
     (case arraySort cmp xs of
        Inl err \<Rightarrow> Inl err
      | Inr ys \<Rightarrow> insertSorted cmp x ys)"

text \<open>
  The loop of lines 116 to 121 over \<^verbatim>\<open>markers.slice(1)\<close>: \<open>uniqueMarkers\<close> is the
  array built so far, a marker is pushed when its line differs from the line of the
  last element pushed.
\<close>

fun pushUnique :: "('a \<Rightarrow> js_error + int) \<Rightarrow> 'a list \<Rightarrow> 'a list \<Rightarrow> js_error + 'a list" where
  "pushUnique line uniqueMarkers [] = Inr uniqueMarkers"
| "pushUnique line uniqueMarkers (marker # rest) =
     (case line marker of
        Inl err \<Rightarrow> Inl err
      | Inr l \<Rightarrow>
          (case uniqueMarkers of
             [] \<Rightarrow> Inl TypeError
           | _ # _ \<Rightarrow>
               (case line (last uniqueMarkers) of
                  Inl err \<Rightarrow> Inl err
                | Inr k \<Rightarrow>
                    pushUnique line
                      (if l \<noteq> k then uniqueMarkers @ [marker] else uniqueMarkers) rest)))"

definition filterUnique :: "('a \<Rightarrow> js_error + int) \<Rightarrow> 'a list \<Rightarrow> js_error + 'a list" where
  "filterUnique line markers =
     (if length markers > 0 then pushUnique line [hd markers] (tl markers) else Inr [])"

definition deduplicateBy :: "('a \<Rightarrow> js_error + int) \<Rightarrow> 'a list \<Rightarrow> js_error + 'a list" where
  "deduplicateBy line markers =
     (case arraySort (compareLines line) markers of
        Inl err \<Rightarrow> Inl err
      | Inr sortedMarkers \<Rightarrow> filterUnique line sortedMarkers)"

text \<open>The Deduplicator on the markers of a response: lines 97 to 122.\<close>

definition deduplicate :: "ScriptFileMarker list \<Rightarrow> js_error + ScriptFileMarker list" where
  "deduplicate markers = deduplicateBy firstEditStartLine markers"

text \<open>
  The positions (indices into the response) of the markers the Deduplicator keeps: the
  same sort and filter, run on the markers paired with their index.
\<close>

definition mapResult :: "('a \<Rightarrow> 'b) \<Rightarrow> js_error + 'a \<Rightarrow> js_error + 'b" where
  "mapResult f r = (case r of Inl err \<Rightarrow> Inl err | Inr v \<Rightarrow> Inr (f v))"

definition keptPositions :: "ScriptFileMarker list \<Rightarrow> js_error + nat list" where
  "keptPositions markers =
     mapResult (map fst)
       (deduplicateBy (\<lambda>p. firstEditStartLine (snd p)) (zip [0 ..< length markers] markers))"

section \<open>The collaborators: language client, editor, settings\<close>

text \<open>
  The arguments of \<^verbatim>\<open>new vscode.Range(...)\<close> and of one call of
  \<^verbatim>\<open>activeTextEditor.edit\<close>: the range and text handed to
  \<^verbatim>\<open>editBuilder.replace\<close>, and the two options.
\<close>

record Range =
  startLine :: int
  startCharacter :: int
  endLine :: int
  endCharacter :: int

record EditCall =
  editRange :: Range
  editText :: string
  undoStopAfter :: bool
  undoStopBefore :: bool

record TextEdit =
  textEditRange :: Range
  textEditNewText :: string

record TextDocument =
  fileName :: string

text \<open>
  The language server and the text buffer live outside this file. Their state is a
  value of an arbitrary type \<open>'x\<close>; a request and an edit are functions on it. The
  model keeps, beside that state, the trace of what the formatter asked of them: each
  request sent (with the index of the rule it was sent for) and each replacement handed
  to the editor.
\<close>

datatype event = Requested nat ScriptFileMarkersRequestParams | Replaced EditCall

record 'x world =
  outside :: 'x
  trace :: "event list"

type_synonym 'x LanguageClient =
  "ScriptFileMarkersRequestParams \<Rightarrow> 'x \<Rightarrow> (js_error + ScriptFileMarker list) \<times> 'x"

type_synonym 'x TextEditor = "EditCall \<Rightarrow> 'x \<Rightarrow> (js_error + bool) \<times> 'x"

text \<open>
  Modelled from the spec: the settings object of \<^verbatim>\<open>../settings\<close>, which is not among
  the sources. \<^verbatim>\<open>getSettings\<close> reads three fields of its \<^verbatim>\<open>codeformatting\<close> part:
  two boolean flags and a numeric indentation size.
\<close>

record CodeFormatting =
  openBraceOnSameLine :: bool
  newLineAfterOpenBrace :: bool
  indentationSize :: int

text \<open>
  The globals the provider reaches for: \<^verbatim>\<open>Window.activeTextEditor\<close> (undefined when
  no editor is open) and what \<^verbatim>\<open>Settings.load\<close> returns.
\<close>

record 'x host =
  activeTextEditor :: "'x TextEditor js_ref"
  loadedSettings :: CodeFormatting

text \<open>
  The class \<^verbatim>\<open>PSDocumentFormattingEditProvider\<close>. Its field \<^verbatim>\<open>languageClient\<close> is
  declared without an initialiser and the constructor does not assign it, so it is
  undefined until \<^verbatim>\<open>setLanguageClient\<close> is called.
\<close>

record 'x provider =
  languageClient :: "'x LanguageClient js_ref"
  aggregateUndoStop :: bool

definition newProvider :: "bool \<Rightarrow> 'x provider" where
  "newProvider aggregate = \<lparr>languageClient = JsUndefined, aggregateUndoStop = aggregate\<rparr>"

definition setLanguageClient :: "'x LanguageClient js_ref \<Rightarrow> 'x provider \<Rightarrow> 'x provider" where
  "setLanguageClient client p = p\<lparr>languageClient := client\<rparr>"

text \<open>The constructor of \<^verbatim>\<open>DocumentFormatterFeature\<close> (line 213).\<close>

definition featureProvider :: "'x provider" where
  "featureProvider = newProvider True"

definition ruleOrder :: "string list" where
  "ruleOrder = [''PSPlaceCloseBrace'', ''PSPlaceOpenBrace'', ''PSUseConsistentIndentation'']"

section \<open>The settings string of a rule\<close>

text \<open>
  A line feed, \<open>n\<close> spaces, and how a template literal writes a boolean and a number
  that is an integer (in decimal, with a minus sign when negative).
\<close>

definition lf :: string where
  "lf = [CHR 0x0A]"

definition indent :: "nat \<Rightarrow> string" where
  "indent n = replicate n (CHR '' '')"

definition showBool :: "bool \<Rightarrow> string" where
  "showBool b = (if b then ''true'' else ''false'')"

fun showNat :: "nat \<Rightarrow> string" where
  "showNat n =
     (if n < 10 then [''0123456789'' ! n]
      else showNat (n div 10) @ [''0123456789'' ! (n mod 10)])"

declare showNat.simps [simp del]

definition showInt :: "int \<Rightarrow> string" where
  "showInt i = (if i < 0 then ''-'' @ showNat (nat (- i)) else showNat (nat i))"

text \<open>
  The \<^verbatim>\<open>switch\<close> of lines 175 to 196. The template literals keep the line feeds and
  the indentation of the source file.
\<close>

definition ruleProperty :: "CodeFormatting \<Rightarrow> string \<Rightarrow> string" where
  "ruleProperty cf rule =
     (if rule = ''PSPlaceOpenBrace'' then
        rule @ '' = @'' @ ''{'' @ lf
        @ indent 20 @ ''Enable = $true'' @ lf
        @ indent 20 @ ''OnSameLine = $'' @ showBool (openBraceOnSameLine cf) @ lf
        @ indent 20 @ ''NewLineAfter = $'' @ showBool (newLineAfterOpenBrace cf) @ lf
        @ indent 16 @ ''}''
      else if rule = ''PSUseConsistentIndentation'' then
        rule @ '' = @'' @ ''{'' @ lf
        @ indent 20 @ ''Enable = $true'' @ lf
        @ indent 20 @ ''IndentationSize = '' @ showInt (indentationSize cf) @ lf
        @ indent 16 @ ''}''
      else
        rule @ '' = @'' @ ''{'' @ lf
        @ indent 20 @ ''Enable = $true'' @ lf
        @ indent 16 @ ''}'')"

definition getSettings :: "CodeFormatting \<Rightarrow> string \<Rightarrow> string" where
  "getSettings cf rule =
     ''@'' @ ''{'' @ lf
     @ indent 4 @ ''IncludeRules = @('' @ [CHR 0x27] @ rule @ [CHR 0x27] @ '')'' @ lf
     @ indent 4 @ ''Rules = @'' @ ''{'' @ lf
     @ indent 16 @ ruleProperty cf rule @ lf
     @ indent 4 @ ''}'' @ lf
     @ ''}''"

text \<open>
  A settings string carries the setting \<open>key\<close> when the text \<open>key = \<close> stands
  in it.
\<close>

definition carries :: "string \<Rightarrow> string \<Rightarrow> bool" where
  "carries key blob = sublist (key @ '' = '') blob"

section \<open>The Edit Applicator\<close>

text \<open>
  \<^verbatim>\<open>applyEdit\<close> (lines 143 to 166). The options are computed first, then
  \<^verbatim>\<open>edits[0]\<close> is read; \<^verbatim>\<open>Window.activeTextEditor.edit\<close> raises when no editor
  is active, and the callback raises on \<^verbatim>\<open>edit.startLineNumber\<close> when the marker
  has no first edit. The boolean the editor answers is not looked at.
\<close>

definition editCall :: "'x provider \<Rightarrow> nat \<Rightarrow> nat \<Rightarrow> nat \<Rightarrow> ScriptRegion \<Rightarrow> EditCall" where
  "editCall p markersLength markerIndex ruleIndex edit =
     \<lparr>editRange =
        \<lparr>startLine = startLineNumber edit - 1,
         startCharacter = startColumnNumber edit - 1,
         endLine = endLineNumber edit - 1,
         endCharacter = endColumnNumber edit - 1\<rparr>,
      editText = regionText edit,
      undoStopAfter =
        (\<not> aggregateUndoStop p
         \<or> (int ruleIndex = int (length ruleOrder) - 1
            \<and> int markerIndex = int markersLength - 1)),
      undoStopBefore = (\<not> aggregateUndoStop p \<or> (ruleIndex = 0 \<and> markerIndex = 0))\<rparr>"

function applyEdit ::
  "'x host \<Rightarrow> 'x provider \<Rightarrow> ScriptFileMarker list \<Rightarrow> nat \<Rightarrow> nat \<Rightarrow> 'x world
     \<Rightarrow> (js_error + unit) \<times> 'x world" where
  "applyEdit h p markers markerIndex ruleIndex w =
     (if markerIndex \<ge> length markers then (Inr (), w)
      else
        (case activeTextEditor h of
           JsObject editor \<Rightarrow>
             (case firstEdit (markers ! markerIndex) of
                None \<Rightarrow> (Inl TypeError, w)
              | Some edit \<Rightarrow>
                  (let call = editCall p (length markers) markerIndex ruleIndex edit;
                       answer = editor call (outside w);
                       w' = \<lparr>outside = snd answer, trace = trace w @ [Replaced call]\<rparr>
                   in case fst answer of
                        Inl err \<Rightarrow> (Inl err, w')
                      | Inr isEditApplied \<Rightarrow>
                          applyEdit h p markers (markerIndex + 1) ruleIndex w'))
         | _ \<Rightarrow> (Inl TypeError, w)))"
  by pat_completeness auto
termination
  by (relation "measure (\<lambda>(h, p, markers, markerIndex, ruleIndex, w). length markers - markerIndex)")
     auto

declare applyEdit.simps [simp del]

section \<open>The Rule Scheduler\<close>

text \<open>
  One pass for the rule at \<open>index\<close>: the request, the two callbacks up to the choice
  of the next index (lines 87 to 136). \<open>markers\<close> is the response after the sort in
  place, which is what the second callback compares \<open>uniqueMarkers\<close> with.
\<close>

definition nextIndex :: "nat \<Rightarrow> 'a list \<Rightarrow> 'a list \<Rightarrow> nat" where
  "nextIndex index uniqueMarkers markers =
     (if length uniqueMarkers \<noteq> length markers then index else index + 1)"

definition rulePass ::
  "'x host \<Rightarrow> 'x provider \<Rightarrow> 'x LanguageClient \<Rightarrow> TextDocument \<Rightarrow> nat \<Rightarrow> 'x world
     \<Rightarrow> (js_error + nat) \<times> 'x world" where
  "rulePass h p client document index w =
     (let rule = ruleOrder ! index;
          params = \<lparr>filePath = fileName document,
                    settings = getSettings (loadedSettings h) rule\<rparr>;
          response = client params (outside w);
          w1 = \<lparr>outside = snd response, trace = trace w @ [Requested index params]\<rparr>
      in case fst response of
           Inl err \<Rightarrow> (Inl err, w1)
         | Inr result \<Rightarrow>
             (case arraySort (compareLines firstEditStartLine) result of
                Inl err \<Rightarrow> (Inl err, w1)
              | Inr markers \<Rightarrow>
                  (case filterUnique firstEditStartLine markers of
                     Inl err \<Rightarrow> (Inl err, w1)
                   | Inr uniqueMarkers \<Rightarrow>
                       (let applied = applyEdit h p uniqueMarkers 0 index w1
                        in case fst applied of
                             Inl err \<Rightarrow> (Inl err, snd applied)
                           | Inr u \<Rightarrow>
                               (Inr (nextIndex index uniqueMarkers markers), snd applied)))))"

text \<open>
  What a call hands back: it raises, it returns a value, or it returns a Thenable. A
  Thenable ends fulfilled with a value or rejected with an error; \<open>Pending\<close> is the
  chain that has not ended within the passes the run was given.
\<close>

datatype 'a settlement = Fulfilled 'a | RejectedWith js_error | Pending

datatype 'a outcome = Throws js_error | Returns 'a | ReturnsThenable "'a settlement"

text \<open>
  A \<^verbatim>\<open>then\<close> callback that returns a Thenable makes the chain follow it; one that
  returns a value fulfils the chain; one that raises rejects it.
\<close>

definition adopt :: "'a outcome \<Rightarrow> 'a settlement" where
  "adopt r = (case r of Throws err \<Rightarrow> RejectedWith err | Returns v \<Rightarrow> Fulfilled v | ReturnsThenable s \<Rightarrow> s)"

text \<open>
  The expression \<^verbatim>\<open>TextEdit[0]\<close> of line 139 reads the property \<^verbatim>\<open>0\<close> of the class
  \<^verbatim>\<open>TextEdit\<close>, which has none: its value is undefined, not an empty array.
\<close>

definition TextEdit_0 :: "TextEdit list js_ref" where
  "TextEdit_0 = JsUndefined"

definition notNull :: "'a js_ref \<Rightarrow> bool" where
  "notNull r = (case r of JsNull \<Rightarrow> False | _ \<Rightarrow> True)"

text \<open>
  \<^verbatim>\<open>executeRulesInOrder\<close> (lines 82 to 141). The guard compares the field with
  \<^verbatim>\<open>null\<close> by \<^verbatim>\<open>!==\<close>, which an undefined field passes; the call of
  \<^verbatim>\<open>sendRequest\<close> on it then raises. The recursion through the second callback may
  go on for ever (a service that reports a collision on every pass), so the run is
  given a number of passes, \<open>fuel\<close>. A chain that needs more is cut before the
  request of the pass it has no fuel for, and is \<open>Pending\<close>. \<open>document\<close>,
  \<open>options\<close> and the provider are the same in every recursive call, as in the
  source.
\<close>

fun executeRulesInOrder ::
  "nat \<Rightarrow> 'x host \<Rightarrow> 'x provider \<Rightarrow> TextDocument \<Rightarrow> 'o \<Rightarrow> nat \<Rightarrow> 'x world
     \<Rightarrow> TextEdit list js_ref outcome \<times> 'x world" where
  "executeRulesInOrder fuel h p document options index w =
     (if notNull (languageClient p) \<and> index < length ruleOrder then
        (case languageClient p of
           JsObject client \<Rightarrow>
             (case fuel of
                0 \<Rightarrow> (ReturnsThenable Pending, w)
              | Suc fuel' \<Rightarrow>
                  (let pass = rulePass h p client document index w
                   in case fst pass of
                        Inl err \<Rightarrow> (ReturnsThenable (RejectedWith err), snd pass)
                      | Inr next \<Rightarrow>
                          (let r = executeRulesInOrder fuel' h p document options next (snd pass)
                           in (ReturnsThenable (adopt (fst r)), snd r))))
         | _ \<Rightarrow> (Throws TypeError, w))
      else (Returns TextEdit_0, w))"

declare executeRulesInOrder.simps [simp del]

definition provideDocumentFormattingEdits ::
  "nat \<Rightarrow> 'x host \<Rightarrow> 'x provider \<Rightarrow> TextDocument \<Rightarrow> 'o \<Rightarrow> 't \<Rightarrow> 'x world
     \<Rightarrow> TextEdit list js_ref outcome \<times> 'x world" where
  "provideDocumentFormattingEdits fuel h p document options token w =
     executeRulesInOrder fuel h p document options 0 w"

section \<open>Notions for the statements and the proofs\<close>

text \<open>
  The indices of the rules requests were sent for, and the calls handed to the editor,
  in the order of the trace.
\<close>

fun requestedIndices :: "event list \<Rightarrow> nat list" where
  "requestedIndices [] = []"
| "requestedIndices (Requested i params # evs) = i # requestedIndices evs"
| "requestedIndices (Replaced c # evs) = requestedIndices evs"

fun replacedCalls :: "event list \<Rightarrow> EditCall list" where
  "replacedCalls [] = []"
| "replacedCalls (Requested i params # evs) = replacedCalls evs"
| "replacedCalls (Replaced c # evs) = c # replacedCalls evs"

text \<open>
  The line number an element was read with (\<open>0\<close> stands in where the read raised; the
  proofs use it only where it did not), and the order "the line of \<open>a\<close> is read, the
  line of \<open>b\<close> is read, and the first is the greater".
\<close>

definition lineKey :: "('a \<Rightarrow> js_error + int) \<Rightarrow> 'a \<Rightarrow> int" where
  "lineKey line x = (case line x of Inl err \<Rightarrow> 0 | Inr v \<Rightarrow> v)"

definition lineAbove :: "('a \<Rightarrow> js_error + int) \<Rightarrow> 'a \<Rightarrow> 'a \<Rightarrow> bool" where
  "lineAbove line a b =
     (case line a of
        Inl err \<Rightarrow> False
      | Inr x \<Rightarrow> (case line b of Inl err \<Rightarrow> False | Inr y \<Rightarrow> y < x))"

text \<open>
  The edits a caller finds in a returned value: those of the array when it is one,
  none in \<^verbatim>\<open>undefined\<close> or \<^verbatim>\<open>null\<close>.
\<close>

definition editsOf :: "TextEdit list js_ref \<Rightarrow> TextEdit list" where
  "editsOf v = (case v of JsObject es \<Rightarrow> es | _ \<Rightarrow> [])"

text \<open>
  The call the applicator makes for the marker at position \<open>j\<close> of \<open>ms\<close>, for
  positions whose marker has a first edit, and the characters a decimal numeral is
  written with. Both serve the proofs only.
\<close>

definition callAt :: "'x provider \<Rightarrow> ScriptFileMarker list \<Rightarrow> nat \<Rightarrow> nat \<Rightarrow> EditCall" where
  "callAt p ms r j = editCall p (length ms) j r (the (firstEdit (ms ! j)))"

definition digits :: "char set" where
  "digits = set ''0123456789''"


section \<open>Concrete runs\<close>

text \<open>
  A marker whose correction has one edit, on line \<open>l\<close>, and two language servers
  whose state counts the requests answered so far. The first reports two violations
  on line 10 for the first rule, the one left over on the next request, and nothing
  after that. The second reports one violation for each of the three rules. The editor
  accepts every edit.
\<close>

definition markerAt :: "int \<Rightarrow> string \<Rightarrow> ScriptFileMarker" where
  "markerAt l t =
     \<lparr>message = ''violation'', level = Warning,
      scriptRegion =
        \<lparr>regionFile = ''a.ps1'', regionText = ''x'', startLineNumber = l,
         startColumnNumber = 1, startOffset = 0, endLineNumber = l, endColumnNumber = 3,
         endOffset = 2\<rparr>,
      correction =
        \<lparr>correctionName = ''fix'',
         edits =
           [\<lparr>regionFile = ''a.ps1'', regionText = t, startLineNumber = l,
             startColumnNumber = 1, startOffset = 0, endLineNumber = l,
             endColumnNumber = 3, endOffset = 2\<rparr>]\<rparr>\<rparr>"

definition collidingClient :: "nat LanguageClient" where
  "collidingClient params n =
     (Inr (if n = 0 then [markerAt 10 ''first'', markerAt 10 ''second'']
           else if n = 1 then [markerAt 10 ''second'']
           else []),
      n + 1)"

definition onePerRuleClient :: "nat LanguageClient" where
  "onePerRuleClient params n = (Inr (if n < 3 then [markerAt 4 ''fixed''] else []), n + 1)"

definition acceptingEditor :: "nat TextEditor" where
  "acceptingEditor call n = (Inr True, n)"

definition demoHost :: "nat host" where
  "demoHost =
     \<lparr>activeTextEditor = JsObject acceptingEditor,
      loadedSettings =
        \<lparr>openBraceOnSameLine = True, newLineAfterOpenBrace = False, indentationSize = 4\<rparr>\<rparr>"

definition demoDocument :: TextDocument where
  "demoDocument = \<lparr>fileName = ''a.ps1''\<rparr>"

definition freshWorld :: "nat world" where
  "freshWorld = \<lparr>outside = 0, trace = []\<rparr>"

text \<open>
  An editor whose state is the list of the replacements it was handed, each appended
  when it is made, and a host with that editor.
\<close>

definition recordingEditor :: "(Range \<times> string) list TextEditor" where
  "recordingEditor call buffer = (Inr True, buffer @ [(editRange call, editText call)])"

definition recordingHost :: "(Range \<times> string) list host" where
  "recordingHost =
     \<lparr>activeTextEditor = JsObject recordingEditor,
      loadedSettings =
        \<lparr>openBraceOnSameLine = True, newLineAfterOpenBrace = False, indentationSize = 4\<rparr>\<rparr>"

text \<open>
  Three markers on the lines 10, 10 and 5, in the order of the response.
\<close>

definition scenarioA :: "ScriptFileMarker list" where
  "scenarioA = [markerAt 10 ''first'', markerAt 10 ''second'', markerAt 5 ''third'']"

text \<open>
  The same marker with another message and level, and a second edit added to its
  correction.
\<close>

definition restated :: "ScriptFileMarker \<Rightarrow> ScriptFileMarker" where
  "restated m =
     m\<lparr>message := ''another message'', level := Error,
       correction :=
         (correction m)\<lparr>edits := edits (correction m) @ [scriptRegion m]\<rparr>\<rparr>"

section \<open>Lemmas: the sort and the filter\<close>

lemma insertSorted_total:
  assumes "\<forall>x\<in>set (x0 # ys). line x = Inr (k x)"
  shows "insertSorted (compareLines line) x0 ys = Inr (insort_key (\<lambda>x. - k x) x0 ys)"
  using assms
  by (induction ys) (auto simp: compareLines_def)

lemma arraySort_total:
  assumes "\<forall>x\<in>set xs. line x = Inr (k x)"
  shows "arraySort (compareLines line) xs = Inr (sort_key (\<lambda>x. - k x) xs)"
  using assms
proof (induction xs)
  case Nil
  then show ?case by simp
next
  case (Cons x xs)
  then have "arraySort (compareLines line) xs = Inr (sort_key (\<lambda>x. - k x) xs)" by simp
  moreover have "\<forall>y\<in>set (x # sort_key (\<lambda>x. - k x) xs). line y = Inr (k y)"
    using Cons.prems by simp
  ultimately show ?case
    by (simp add: insertSorted_total)
qed

lemma insertSorted_mset:
  "insertSorted cmp x ys = Inr zs \<Longrightarrow> mset zs = add_mset x (mset ys)"
  by (induction ys arbitrary: zs) (auto split: sum.splits if_splits)

lemma arraySort_mset:
  "arraySort cmp xs = Inr ys \<Longrightarrow> mset ys = mset xs"
  by (induction xs arbitrary: ys) (auto split: sum.splits dest: insertSorted_mset)

lemma insertSorted_reads:
  assumes "insertSorted (compareLines line) x ys = Inr zs" "ys \<noteq> []"
  shows "(\<exists>v. line x = Inr v) \<and> (\<exists>v. line (hd ys) = Inr v)"
  using assms
  by (cases ys) (auto simp: compareLines_def split: sum.splits)

lemma arraySort_reads:
  assumes "arraySort (compareLines line) xs = Inr ys" "2 \<le> length xs"
  shows "\<forall>x\<in>set xs. \<exists>v. line x = Inr v"
  using assms
proof (induction xs arbitrary: ys)
  case Nil
  then show ?case by simp
next
  case (Cons x xs)
  from Cons.prems obtain ys' where s: "arraySort (compareLines line) xs = Inr ys'"
    and i: "insertSorted (compareLines line) x ys' = Inr ys"
    by (auto split: sum.splits)
  from Cons.prems have ne: "xs \<noteq> []" by auto
  have m: "mset ys' = mset xs" using s by (rule arraySort_mset)
  then have ne': "ys' \<noteq> []" using ne by auto
  from insertSorted_reads [OF i ne'] have rx: "\<exists>v. line x = Inr v" and rh: "\<exists>v. line (hd ys') = Inr v"
    by auto
  show ?case
  proof (cases "2 \<le> length xs")
    case True
    with Cons.IH [OF s] rx show ?thesis by simp
  next
    case False
    with ne obtain y where xs: "xs = [y]" by (cases xs) (auto simp: Suc_le_eq)
    with s have "ys' = [y]" by simp
    with rh rx xs show ?thesis by simp
  qed
qed

lemma pushUnique_total:
  assumes "\<forall>x\<in>set acc \<union> set rest. line x = Inr (k x)" "acc \<noteq> []"
  shows "\<exists>r. pushUnique line acc rest = Inr (acc @ r) \<and> mset r \<subseteq># mset rest
           \<and> (sorted_wrt (\<ge>) (map k (last acc # rest)) \<longrightarrow> sorted_wrt (>) (map k (last acc # r)))
           \<and> (sorted_wrt (>) (map k (last acc # rest)) \<longrightarrow> r = rest)"
  using assms
proof (induction rest arbitrary: acc)
  case Nil
  then show ?case by simp
next
  case (Cons m rest)
  obtain a acc' where acc: "acc = a # acc'" using Cons.prems(2) by (cases acc) auto
  have lm: "line m = Inr (k m)" and ll: "line (last acc) = Inr (k (last acc))"
    using Cons.prems by auto
  show ?case
  proof (cases "k m = k (last acc)")
    case True
    from Cons.IH [of acc] Cons.prems obtain r where
      r: "pushUnique line acc rest = Inr (acc @ r)" "mset r \<subseteq># mset rest"
         "sorted_wrt (\<ge>) (map k (last acc # rest)) \<longrightarrow> sorted_wrt (>) (map k (last acc # r))"
      by auto
    have "pushUnique line acc (m # rest) = Inr (acc @ r)"
      using lm ll True r(1) acc by simp
    moreover have "mset r \<subseteq># mset (m # rest)"
      using r(2) subset_mset.trans by fastforce
    moreover have "sorted_wrt (\<ge>) (map k (last acc # m # rest)) \<longrightarrow> sorted_wrt (>) (map k (last acc # r))"
      using r(3) by auto
    moreover have "\<not> sorted_wrt (>) (map k (last acc # m # rest))"
      using True by simp
    ultimately show ?thesis by blast
  next
    case False
    have "\<forall>x\<in>set (acc @ [m]) \<union> set rest. line x = Inr (k x)" using Cons.prems by auto
    from Cons.IH [of "acc @ [m]", OF this] obtain r where
      r: "pushUnique line (acc @ [m]) rest = Inr ((acc @ [m]) @ r)" "mset r \<subseteq># mset rest"
         "sorted_wrt (\<ge>) (map k (m # rest)) \<longrightarrow> sorted_wrt (>) (map k (m # r))"
         "sorted_wrt (>) (map k (m # rest)) \<longrightarrow> r = rest"
      by auto
    have "pushUnique line acc (m # rest) = Inr (acc @ (m # r))"
      using lm ll False r(1) acc by simp
    moreover have "mset (m # r) \<subseteq># mset (m # rest)"
      using r(2) by simp
    moreover have "sorted_wrt (\<ge>) (map k (last acc # m # rest)) \<longrightarrow> sorted_wrt (>) (map k (last acc # m # r))"
      using r(3) False by fastforce
    moreover have "sorted_wrt (>) (map k (last acc # m # rest)) \<longrightarrow> m # r = m # rest"
      using r(4) by simp
    ultimately show ?thesis by blast
  qed
qed

lemma arraySort_single: "arraySort cmp [x] = Inr [x]"
  by simp

lemma strict_desc_distinct:
  "sorted_wrt (>) (map k xs) \<Longrightarrow> distinct (map (k :: 'a \<Rightarrow> int) xs)"
  by (induction xs) auto

lemma desc_sorted_neg:
  "sorted_wrt (\<ge>) (map (k :: 'a \<Rightarrow> int) xs) = sorted (map (\<lambda>x. - k x) xs)"
  by (induction xs) auto

lemma strict_desc_desc:
  "sorted_wrt (>) (map (k :: 'a \<Rightarrow> int) xs) \<Longrightarrow> sorted_wrt (\<ge>) (map k xs)"
  by (induction xs) auto

text \<open>What a successful run says about its input and output.\<close>


lemma deduplicateBy_cases:
  assumes "deduplicateBy line ms = Inr kept"
  shows "(length ms \<le> 1 \<and> kept = ms)
       \<or> ((\<forall>x\<in>set ms. line x = Inr (lineKey line x))
          \<and> mset kept \<subseteq># mset ms \<and> kept \<noteq> []
          \<and> sorted_wrt (>) (map (lineKey line) kept))"
proof (cases "2 \<le> length ms")
  case False
  then have "ms = [] \<or> (\<exists>x. ms = [x])"
    by (cases ms; cases "tl ms") auto
  with assms have "kept = ms"
    by (auto simp: deduplicateBy_def filterUnique_def)
  with False show ?thesis by simp
next
  case True
  let ?k = "lineKey line"
  from assms obtain srt where srt: "arraySort (compareLines line) ms = Inr srt"
    and flt: "filterUnique line srt = Inr kept"
    by (auto simp: deduplicateBy_def split: sum.splits)
  have ok: "\<forall>x\<in>set ms. line x = Inr (?k x)"
    using arraySort_reads [OF srt True] by (auto simp: lineKey_def)
  have srt_eq: "srt = sort_key (\<lambda>x. - ?k x) ms"
    using arraySort_total [OF ok] srt by simp
  have msrt: "mset srt = mset ms" using srt by (rule arraySort_mset)
  then have "srt \<noteq> []" using True by auto
  then obtain a rest where ar: "srt = a # rest" by (cases srt) auto
  have oks: "\<forall>x\<in>set [a] \<union> set rest. line x = Inr (?k x)"
    using ok msrt ar by (metis Un_iff list.set_intros(1) list.set_intros(2) set_ConsD mset_eq_setD empty_set empty_iff)
  from pushUnique_total [OF oks] obtain r where
    r: "pushUnique line [a] rest = Inr ([a] @ r)" "mset r \<subseteq># mset rest"
       "sorted_wrt (\<ge>) (map ?k (a # rest)) \<longrightarrow> sorted_wrt (>) (map ?k (a # r))"
    by auto
  have "sorted (map (\<lambda>x. - ?k x) srt)" unfolding srt_eq by simp
  then have "sorted_wrt (\<ge>) (map ?k (a # rest))"
    using ar by (simp only: desc_sorted_neg)
  with r(3) have "sorted_wrt (>) (map ?k (a # r))" by simp
  moreover have "kept = a # r" using flt ar r(1) by (simp add: filterUnique_def)
  moreover have "mset (a # r) \<subseteq># mset ms" using r(2) msrt ar
    by (metis mset.simps(2) mset_subset_eq_add_mset_cancel)
  ultimately show ?thesis using ok by simp
qed

lemma deduplicateBy_idem:
  assumes "deduplicateBy line ms = Inr kept"
  shows "deduplicateBy line kept = Inr kept"
proof -
  let ?k = "lineKey line"
  from deduplicateBy_cases [OF assms] show ?thesis
  proof
    assume "length ms \<le> 1 \<and> kept = ms"
    with assms show ?thesis by simp
  next
    assume h: "(\<forall>x\<in>set ms. line x = Inr (?k x)) \<and> mset kept \<subseteq># mset ms \<and> kept \<noteq> []
          \<and> sorted_wrt (>) (map ?k kept)"
    then have ok: "\<forall>x\<in>set kept. line x = Inr (?k x)"
      by (meson mset_subset_eqD in_multiset_in_set)
    from h obtain a rest where ar: "kept = a # rest" by (cases kept) auto
    have "sorted (map (\<lambda>x. - ?k x) kept)"
      using h strict_desc_desc desc_sorted_neg by blast
    then have s: "arraySort (compareLines line) kept = Inr kept"
      using arraySort_total [OF ok] by (simp add: sort_key_id_if_sorted)
    have oks: "\<forall>x\<in>set [a] \<union> set rest. line x = Inr (?k x)" using ok ar by simp
    from pushUnique_total [OF oks] obtain r where
      r: "pushUnique line [a] rest = Inr ([a] @ r)"
         "sorted_wrt (>) (map ?k (last [a] # rest)) \<longrightarrow> r = rest"
      by blast
    with h ar have "pushUnique line [a] rest = Inr kept" by simp
    then show ?thesis using s ar by (simp add: deduplicateBy_def filterUnique_def)
  qed
qed

section \<open>Lemmas: the Deduplicator reads only the first edit\<close>

lemma mapResult_simps [simp]:
  "mapResult f (Inl e) = Inl e" "mapResult f (Inr v) = Inr (f v)"
  by (simp_all add: mapResult_def)

lemma mapResult_comp: "mapResult f (mapResult g r) = mapResult (\<lambda>x. f (g x)) r"
  by (cases r) simp_all

lemma compareLines_comp: "compareLines line (f a) (f b) = compareLines (\<lambda>x. line (f x)) a b"
  by (simp add: compareLines_def)

lemma insertSorted_map:
  "insertSorted cmp (f x) (map f ys)
     = mapResult (map f) (insertSorted (\<lambda>a b. cmp (f a) (f b)) x ys)"
  by (induction ys) (auto split: sum.splits)

lemma arraySort_map:
  "arraySort cmp (map f xs) = mapResult (map f) (arraySort (\<lambda>a b. cmp (f a) (f b)) xs)"
proof (induction xs)
  case Nil
  then show ?case by simp
next
  case (Cons x xs)
  show ?case
  proof (cases "arraySort (\<lambda>a b. cmp (f a) (f b)) xs")
    case (Inl e)
    with Cons show ?thesis by simp
  next
    case (Inr ys)
    with Cons show ?thesis by (simp add: insertSorted_map)
  qed
qed

lemma pushUnique_step:
  "acc \<noteq> [] \<Longrightarrow>
   pushUnique line acc (m # rest) =
     (case line m of
        Inl e \<Rightarrow> Inl e
      | Inr l \<Rightarrow>
          (case line (last acc) of
             Inl e \<Rightarrow> Inl e
           | Inr k \<Rightarrow> pushUnique line (if l \<noteq> k then acc @ [m] else acc) rest))"
  by (cases acc) (simp_all del: last.simps split: sum.splits)

lemma pushUnique_map:
  "pushUnique line (map f acc) (map f rest)
     = mapResult (map f) (pushUnique (\<lambda>x. line (f x)) acc rest)"
proof (induction rest arbitrary: acc)
  case Nil
  then show ?case by simp
next
  case (Cons m rest)
  show ?case
  proof (cases "acc = []")
    case True
    then show ?thesis by (simp split: sum.splits)
  next
    case False
    then have ne: "map f acc \<noteq> []" by simp
    have la: "last (map f acc) = f (last acc)" using False by (simp add: last_map)
    have IH1: "pushUnique line (map f acc @ [f m]) (map f rest)
                 = mapResult (map f) (pushUnique (\<lambda>x. line (f x)) (acc @ [m]) rest)"
      using Cons.IH [of "acc @ [m]"] by simp
    show ?thesis
      unfolding list.map pushUnique_step [OF ne] pushUnique_step [OF False] la
      by (simp add: IH1 Cons.IH split: sum.splits)
  qed
qed

lemma filterUnique_map:
  "filterUnique line (map f ms) = mapResult (map f) (filterUnique (\<lambda>x. line (f x)) ms)"
proof (cases ms)
  case Nil
  then show ?thesis by (simp add: filterUnique_def)
next
  case (Cons a rest)
  then show ?thesis
    using pushUnique_map [of line f "[a]" rest] by (simp add: filterUnique_def)
qed

lemma deduplicateBy_map:
  "deduplicateBy line (map f ms) = mapResult (map f) (deduplicateBy (\<lambda>x. line (f x)) ms)"
proof -
  have c: "(\<lambda>a b. compareLines line (f a) (f b)) = compareLines (\<lambda>x. line (f x))"
    by (intro ext) (rule compareLines_comp)
  show ?thesis
    unfolding deduplicateBy_def arraySort_map c
    by (cases "arraySort (compareLines (\<lambda>x. line (f x))) ms") (simp_all add: filterUnique_map)
qed

lemma deduplicateBy_subset:
  assumes "deduplicateBy line ms = Inr kept"
  shows "mset kept \<subseteq># mset ms"
  using deduplicateBy_cases [OF assms] by auto

lemma keptPositions_firstEdits:
  "keptPositions ms
     = mapResult (map fst)
         (deduplicateBy (\<lambda>p. startLineOf (snd p)) (zip [0 ..< length ms] (map firstEdit ms)))"
proof -
  have z: "zip [0 ..< length ms] (map firstEdit ms) = map (apsnd firstEdit) (zip [0 ..< length ms] ms)"
    by (simp add: zip_map2 apsnd_def map_prod_def)
  have "mapResult (map fst) (mapResult (map (apsnd firstEdit)) r) = mapResult (map fst) r"
    for r :: "js_error + (nat \<times> ScriptFileMarker) list"
    by (cases r) (simp_all add: comp_def)
  then show ?thesis
    unfolding keptPositions_def z deduplicateBy_map
    by (simp add: firstEditStartLine_def)
qed

lemma deduplicate_firstEdits:
  "mapResult (map firstEdit) (deduplicate ms) = deduplicateBy startLineOf (map firstEdit ms)"
  unfolding deduplicateBy_map
  by (simp add: deduplicate_def firstEditStartLine_def [abs_def])

lemma zip_upt_snd: "q \<in> set (zip [0 ..< length ms] ms) \<Longrightarrow> snd q = ms ! fst q"
  by (cases q) (auto simp: set_zip)

lemma deduplicate_positions:
  "deduplicate ms = mapResult (map (\<lambda>i. ms ! i)) (keptPositions ms)"
proof -
  let ?Z = "zip [0 ..< length ms] ms"
  let ?D = "deduplicateBy (\<lambda>p. firstEditStartLine (snd p)) ?Z"
  have ms: "map snd ?Z = ms" by simp
  have "deduplicateBy firstEditStartLine (map snd ?Z) = mapResult (map snd) ?D"
    by (rule deduplicateBy_map)
  then have d: "deduplicate ms = mapResult (map snd) ?D"
    unfolding ms deduplicate_def .
  show ?thesis
  proof (cases ?D)
    case (Inl e)
    with d show ?thesis by (simp add: keptPositions_def)
  next
    case (Inr R)
    then have "mset R \<subseteq># mset ?Z" by (rule deduplicateBy_subset)
    then have "set R \<subseteq> set ?Z" by (rule set_mset_mono [of "mset R" "mset ?Z", simplified])
    then have "\<forall>q\<in>set R. snd q = ms ! fst q"
      using zip_upt_snd by blast
    then have "map snd R = map (\<lambda>i. ms ! i) (map fst R)"
      by (induction R) simp_all
    with d Inr show ?thesis by (simp add: keptPositions_def)
  qed
qed

section \<open>Lemmas: the applicator\<close>

lemma applyEdit_firstEdits:
  assumes "map firstEdit ks = map firstEdit ks'"
  shows "applyEdit h p ks i r w = applyEdit h p ks' i r w"
  using assms
proof (induction h p ks i r w rule: applyEdit.induct)
  case (1 h p markers markerIndex ruleIndex w)
  have len: "length markers = length ks'"
    using "1.prems" by (rule map_eq_imp_length_eq)
  have L: "applyEdit h p markers markerIndex ruleIndex w =
     (if markerIndex \<ge> length markers then (Inr (), w)
      else
        (case activeTextEditor h of
           JsObject editor \<Rightarrow>
             (case firstEdit (markers ! markerIndex) of
                None \<Rightarrow> (Inl TypeError, w)
              | Some edit \<Rightarrow>
                  (let call = editCall p (length markers) markerIndex ruleIndex edit;
                       answer = editor call (outside w);
                       w' = \<lparr>outside = snd answer, trace = trace w @ [Replaced call]\<rparr>
                   in case fst answer of
                        Inl err \<Rightarrow> (Inl err, w')
                      | Inr isEditApplied \<Rightarrow>
                          applyEdit h p markers (markerIndex + 1) ruleIndex w'))
         | _ \<Rightarrow> (Inl TypeError, w)))"
    by (rule applyEdit.simps)
  have R: "applyEdit h p ks' markerIndex ruleIndex w =
     (if markerIndex \<ge> length ks' then (Inr (), w)
      else
        (case activeTextEditor h of
           JsObject editor \<Rightarrow>
             (case firstEdit (ks' ! markerIndex) of
                None \<Rightarrow> (Inl TypeError, w)
              | Some edit \<Rightarrow>
                  (let call = editCall p (length ks') markerIndex ruleIndex edit;
                       answer = editor call (outside w);
                       w' = \<lparr>outside = snd answer, trace = trace w @ [Replaced call]\<rparr>
                   in case fst answer of
                        Inl err \<Rightarrow> (Inl err, w')
                      | Inr isEditApplied \<Rightarrow>
                          applyEdit h p ks' (markerIndex + 1) ruleIndex w'))
         | _ \<Rightarrow> (Inl TypeError, w)))"
    by (rule applyEdit.simps)
  show ?case
  proof (cases "markerIndex \<ge> length markers")
    case True
    then show ?thesis unfolding L R using len by simp
  next
    case False
    then have fe: "firstEdit (markers ! markerIndex) = firstEdit (ks' ! markerIndex)"
      using "1.prems" len by (metis not_le nth_map)
    show ?thesis
      unfolding L R
      using False len fe "1.IH" "1.prems"
      by (auto split: js_ref.splits option.splits sum.splits simp: Let_def)
  qed
qed

lemma applyEdit_trace:
  assumes "applyEdit h p ms i r w = (res, w')" "i \<le> length ms"
  shows "\<exists>n. i \<le> n \<and> n \<le> length ms
           \<and> (\<forall>j. i \<le> j \<and> j < n \<longrightarrow> firstEdit (ms ! j) \<noteq> None)
           \<and> trace w' = trace w @ map (\<lambda>j. Replaced (callAt p ms r j)) [i ..< n]
           \<and> ((\<exists>u. res = Inr u) \<longrightarrow> n = length ms)"
  using assms
proof (induction h p ms i r w arbitrary: res w' rule: applyEdit.induct)
  case (1 h p markers markerIndex ruleIndex w)
  note unfold = applyEdit.simps [of h p markers markerIndex ruleIndex w]
  show ?case
  proof (cases "markerIndex \<ge> length markers")
    case True
    with "1.prems" have "w' = w" "markerIndex = length markers"
      unfolding unfold by auto
    then show ?thesis by (intro exI [of _ markerIndex]) auto
  next
    case False
    show ?thesis
    proof (cases "activeTextEditor h")
      case (JsObject editor)
      show ?thesis
      proof (cases "firstEdit (markers ! markerIndex)")
        case None
        with "1.prems" False JsObject have "w' = w" "res = Inl TypeError"
          unfolding unfold by auto
        then show ?thesis using "1.prems"(2) by (intro exI [of _ markerIndex]) auto
      next
        case (Some edit)
        define call where "call = editCall p (length markers) markerIndex ruleIndex edit"
        define answer where "answer = editor call (outside w)"
        define w1 where "w1 = \<lparr>outside = snd answer, trace = trace w @ [Replaced call]\<rparr>"
        have c: "call = callAt p markers ruleIndex markerIndex"
          by (simp add: call_def callAt_def Some)
        show ?thesis
        proof (cases "fst answer")
          case (Inl err)
          with "1.prems" False JsObject Some have "w' = w1" "res = Inl err"
            unfolding unfold by (auto simp: Let_def w1_def answer_def call_def)
          then have "trace w' = trace w @ map (\<lambda>j. Replaced (callAt p markers ruleIndex j)) [markerIndex ..< Suc markerIndex]"
            by (simp add: w1_def c)
          moreover have "\<forall>j. markerIndex \<le> j \<and> j < Suc markerIndex \<longrightarrow> firstEdit (markers ! j) \<noteq> None"
            using Some by (metis le_antisym less_Suc_eq_le option.distinct(1))
          ultimately show ?thesis
            using False \<open>res = Inl err\<close>
            by (intro exI [of _ "Suc markerIndex"]) auto
        next
          case (Inr isEditApplied)
          have rec: "applyEdit h p markers (markerIndex + 1) ruleIndex w1 = (res, w')"
            using "1.prems" False JsObject Some Inr
            unfolding unfold by (auto simp: Let_def w1_def answer_def call_def)
          have "markerIndex + 1 \<le> length markers" using False by simp
          from "1.IH" [OF False JsObject Some call_def answer_def w1_def Inr rec this]
          obtain n where n: "markerIndex + 1 \<le> n" "n \<le> length markers"
            "\<forall>j. markerIndex + 1 \<le> j \<and> j < n \<longrightarrow> firstEdit (markers ! j) \<noteq> None"
            "trace w' = trace w1 @ map (\<lambda>j. Replaced (callAt p markers ruleIndex j)) [markerIndex + 1 ..< n]"
            "(\<exists>u. res = Inr u) \<longrightarrow> n = length markers"
            by blast
          have "[markerIndex ..< n] = markerIndex # [markerIndex + 1 ..< n]"
            using n(1) by (simp add: upt_conv_Cons)
          then have "trace w' = trace w @ map (\<lambda>j. Replaced (callAt p markers ruleIndex j)) [markerIndex ..< n]"
            using n(4) by (simp add: w1_def c)
          moreover have "\<forall>j. markerIndex \<le> j \<and> j < n \<longrightarrow> firstEdit (markers ! j) \<noteq> None"
            using n(3) Some by (metis Suc_eq_plus1 Suc_leI le_neq_implies_less option.distinct(1))
          ultimately show ?thesis
            using n(1,2,5) by (intro exI [of _ n]) auto
        qed
      qed
    next
      case JsUndefined
      with "1.prems" False have "w' = w" "res = Inl TypeError"
        unfolding unfold by auto
      then show ?thesis using "1.prems"(2) by (intro exI [of _ markerIndex]) auto
    next
      case JsNull
      with "1.prems" False have "w' = w" "res = Inl TypeError"
        unfolding unfold by auto
      then show ?thesis using "1.prems"(2) by (intro exI [of _ markerIndex]) auto
    qed
  qed
qed

section \<open>Lemmas: the scheduler\<close>

lemma requestedIndices_append:
  "requestedIndices (xs @ ys) = requestedIndices xs @ requestedIndices ys"
  by (induction xs rule: requestedIndices.induct) simp_all

lemma requestedIndices_Replaced: "requestedIndices (map (\<lambda>j. Replaced (f j)) js) = []"
  by (induction js) simp_all

lemma replacedCalls_append:
  "replacedCalls (xs @ ys) = replacedCalls xs @ replacedCalls ys"
  by (induction xs rule: replacedCalls.induct) simp_all

lemma replacedCalls_Replaced: "replacedCalls (map (\<lambda>j. Replaced (f j)) js) = map f js"
  by (induction js) simp_all

lemma applyEdit_requested:
  assumes "applyEdit h p ms 0 r w = (res, w')"
  shows "requestedIndices (trace w') = requestedIndices (trace w)"
proof -
  from applyEdit_trace [OF assms] obtain n where
    "trace w' = trace w @ map (\<lambda>j. Replaced (callAt p ms r j)) [0 ..< n]"
    by auto
  then show ?thesis
    by (simp add: requestedIndices_append requestedIndices_Replaced)
qed

lemma deduplicate_unfold:
  "deduplicate ms =
     (case arraySort (compareLines firstEditStartLine) ms of
        Inl err \<Rightarrow> Inl err
      | Inr sortedMarkers \<Rightarrow> filterUnique firstEditStartLine sortedMarkers)"
  by (simp add: deduplicate_def deduplicateBy_def)

lemma deduplicateBy_length:
  assumes "deduplicateBy line ms = Inr kept"
  shows "length kept \<le> length ms"
  using deduplicateBy_subset [OF assms] by (metis size_mset size_mset_mono)

lemma rulePass_requested:
  "requestedIndices (trace (snd (rulePass h p client document index w)))
     = requestedIndices (trace w) @ [index]"
proof -
  define params where "params = \<lparr>filePath = fileName document,
                    settings = getSettings (loadedSettings h) (ruleOrder ! index)\<rparr>"
  define response where "response = client params (outside w)"
  define w1 where "w1 = \<lparr>outside = snd response, trace = trace w @ [Requested index params]\<rparr>"
  have t1: "requestedIndices (trace w1) = requestedIndices (trace w) @ [index]"
    by (simp add: w1_def requestedIndices_append)
  have a: "requestedIndices (trace (snd (applyEdit h p ks 0 index w1))) = requestedIndices (trace w1)" for ks
    using applyEdit_requested [of h p ks index w1] by (metis prod.collapse)
  show ?thesis
    unfolding rulePass_def Let_def params_def [symmetric] response_def [symmetric] w1_def [symmetric]
    by (auto split: sum.splits simp: t1 a)
qed

lemma rulePass_next:
  assumes "rulePass h p client document index w = (Inr next, w')"
  shows "\<exists>result kept.
           fst (client \<lparr>filePath = fileName document,
                        settings = getSettings (loadedSettings h) (ruleOrder ! index)\<rparr> (outside w))
             = Inr result
         \<and> deduplicate result = Inr kept
         \<and> next = (if length kept < length result then index else index + 1)"
proof -
  define params where "params = \<lparr>filePath = fileName document,
                    settings = getSettings (loadedSettings h) (ruleOrder ! index)\<rparr>"
  define response where "response = client params (outside w)"
  define w1 where "w1 = \<lparr>outside = snd response, trace = trace w @ [Requested index params]\<rparr>"
  from assms obtain result markers kept where
    r: "fst response = Inr result"
    and s: "arraySort (compareLines firstEditStartLine) result = Inr markers"
    and f: "filterUnique firstEditStartLine markers = Inr kept"
    and n: "next = nextIndex index kept markers"
    unfolding rulePass_def Let_def params_def [symmetric] response_def [symmetric] w1_def [symmetric]
    by (auto split: sum.splits)
  have d: "deduplicate result = Inr kept"
    using s f by (simp add: deduplicate_unfold)
  then have "length kept \<le> length result"
    unfolding deduplicate_def by (rule deduplicateBy_length)
  moreover have "length markers = length result"
    using arraySort_mset [OF s] by (metis size_mset)
  ultimately have "next = (if length kept < length result then index else index + 1)"
    using n by (auto simp: nextIndex_def)
  with r d show ?thesis
    unfolding response_def params_def by blast
qed

lemma executeRulesInOrder_requested:
  "\<exists>vs. requestedIndices (trace (snd (executeRulesInOrder fuel h p document options index w)))
           = requestedIndices (trace w) @ vs
      \<and> (vs = [] \<or> hd vs = index)
      \<and> successively (\<lambda>a b. b = a \<or> b = a + 1) vs
      \<and> (\<forall>v\<in>set vs. v < length ruleOrder)"
proof (induction fuel arbitrary: index w)
  case 0
  have "snd (executeRulesInOrder 0 h p document options index w) = w"
    by (simp add: executeRulesInOrder.simps split: js_ref.splits)
  then show ?case by simp
next
  case (Suc fuel)
  note unfold = executeRulesInOrder.simps [of "Suc fuel" h p document options index w]
  show ?case
  proof (cases "notNull (languageClient p) \<and> index < length ruleOrder")
    case False
    then have "snd (executeRulesInOrder (Suc fuel) h p document options index w) = w"
      unfolding unfold by auto
    then show ?thesis by simp
  next
    case guard: True
    show ?thesis
    proof (cases "languageClient p")
      case (JsObject client)
      define pass where "pass = rulePass h p client document index w"
      have tp: "requestedIndices (trace (snd pass)) = requestedIndices (trace w) @ [index]"
        unfolding pass_def by (rule rulePass_requested)
      show ?thesis
      proof (cases "fst pass")
        case (Inl err)
        then have "snd (executeRulesInOrder (Suc fuel) h p document options index w) = snd pass"
          unfolding unfold using guard JsObject by (simp add: pass_def Let_def)
        with tp guard show ?thesis by (intro exI [of _ "[index]"]) simp
      next
        case (Inr nxt)
        then have e: "snd (executeRulesInOrder (Suc fuel) h p document options index w)
                 = snd (executeRulesInOrder fuel h p document options nxt (snd pass))"
          unfolding unfold using guard JsObject by (simp add: pass_def Let_def)
        have "rulePass h p client document index w = (Inr nxt, snd pass)"
          using Inr by (simp add: pass_def prod_eq_iff)
        from rulePass_next [OF this] have nx: "nxt = index \<or> nxt = index + 1"
          by (auto split: if_splits)
        from Suc.IH [of nxt "snd pass"] obtain vs where vs:
          "requestedIndices (trace (snd (executeRulesInOrder fuel h p document options nxt (snd pass))))
             = requestedIndices (trace (snd pass)) @ vs"
          "vs = [] \<or> hd vs = nxt"
          "successively (\<lambda>a b. b = a \<or> b = a + 1) vs"
          "\<forall>v\<in>set vs. v < length ruleOrder"
          by blast
        have "successively (\<lambda>a b. b = a \<or> b = a + 1) (index # vs)"
          using vs(2,3) nx by (auto simp: successively_Cons)
        then show ?thesis
          using e vs(1,4) tp guard by (intro exI [of _ "index # vs"]) simp
      qed
    next
      case JsUndefined
      then have "snd (executeRulesInOrder (Suc fuel) h p document options index w) = w"
        unfolding unfold by simp
      then show ?thesis by simp
    next
      case JsNull
      then have "snd (executeRulesInOrder (Suc fuel) h p document options index w) = w"
        unfolding unfold by simp
      then show ?thesis by simp
    qed
  qed
qed


section \<open>Lemmas: the settings string\<close>

lemma digit_nth: "k < 10 \<Longrightarrow> ''0123456789'' ! k \<in> digits"
  unfolding digits_def by (rule nth_mem) simp

lemma set_showNat: "set (showNat n) \<subseteq> digits"
proof (induction n rule: showNat.induct)
  case (1 n)
  show ?case
  proof (cases "n < 10")
    case True
    have "showNat n = [''0123456789'' ! n]"
      using True by (subst showNat.simps) (simp only: if_True)
    then show ?thesis using digit_nth [OF True] by (simp only: list.set) simp
  next
    case False
    have e: "showNat n = showNat (n div 10) @ [''0123456789'' ! (n mod 10)]"
      using False by (subst showNat.simps) (simp only: if_False)
    have "n mod 10 < 10" by simp
    from digit_nth [OF this] "1.IH" [OF False] show ?thesis
      unfolding e by (simp only: set_append list.set) blast
  qed
qed

lemma showInt_chars:
  assumes "c \<notin> digits" "c \<noteq> CHR ''-''"
  shows "c \<notin> set (showInt i)"
proof -
  have "c \<notin> set (showNat n)" for n
    using set_showNat [of n] assms(1) by blast
  then show ?thesis using assms(2) by (simp add: showInt_def)
qed

lemma not_digit:
  "CHR ''O'' \<notin> digits" "CHR ''N'' \<notin> digits" "CHR ''z'' \<notin> digits"
  by (simp_all add: digits_def)

lemma not_sublist_char: "c \<in> set pat \<Longrightarrow> c \<notin> set s \<Longrightarrow> \<not> sublist pat s"
  using set_mono_sublist by blast

lemma carries_Enable: "carries ''Enable'' (getSettings cf rule)"
proof -
  obtain rest where "ruleProperty cf rule = (rule @ '' = @'' @ ''{'' @ lf @ indent 20) @ ''Enable = '' @ rest"
    unfolding ruleProperty_def by (cases "rule = ''PSPlaceOpenBrace''"; cases "rule = ''PSUseConsistentIndentation''") auto
  then have "\<exists>ps ss. getSettings cf rule = ps @ ''Enable = '' @ ss"
    unfolding getSettings_def by (metis append.assoc)
  then show ?thesis by (simp add: carries_def sublist_def)
qed


lemmas settings_defs = getSettings_def ruleProperty_def lf_def indent_def showBool_def

lemma close_brace_chars:
  "CHR ''O'' \<notin> set (getSettings cf ''PSPlaceCloseBrace'')"
  "CHR ''N'' \<notin> set (getSettings cf ''PSPlaceCloseBrace'')"
  "CHR ''z'' \<notin> set (getSettings cf ''PSPlaceCloseBrace'')"
  by (simp_all add: settings_defs)

lemma open_brace_chars:
  "CHR ''z'' \<notin> set (getSettings cf ''PSPlaceOpenBrace'')"
  by (simp add: settings_defs)

lemma indentation_chars:
  "CHR ''O'' \<notin> set (getSettings cf ''PSUseConsistentIndentation'')"
  "CHR ''N'' \<notin> set (getSettings cf ''PSUseConsistentIndentation'')"
  by (simp_all add: settings_defs showInt_chars not_digit)

lemma sublist_in_prefix: "sublist xs ys \<Longrightarrow> sublist xs (ps @ ys)"
  unfolding sublist_def by (metis append_assoc)

lemma sublist_in_suffix: "sublist xs ys \<Longrightarrow> sublist xs (ys @ ss)"
  unfolding sublist_def by (metis append_assoc)

lemma sublist_getSettings:
  assumes "sublist pat (ruleProperty cf rule)"
  shows "sublist pat (getSettings cf rule)"
proof -
  have "getSettings cf rule =
      (''@'' @ ''{'' @ lf @ indent 4 @ ''IncludeRules = @('' @ [CHR 0x27] @ rule @ [CHR 0x27]
         @ '')'' @ lf @ indent 4 @ ''Rules = @'' @ ''{'' @ lf @ indent 16)
      @ (ruleProperty cf rule @ (lf @ indent 4 @ ''}'' @ lf @ ''}''))"
    by (simp add: getSettings_def)
  then show ?thesis
    using assms by (simp only: sublist_in_prefix sublist_in_suffix)
qed

lemma open_brace_flags:
  "sublist (''OnSameLine = $'' @ showBool (openBraceOnSameLine cf)) (getSettings cf ''PSPlaceOpenBrace'')"
  "sublist (''NewLineAfter = $'' @ showBool (newLineAfterOpenBrace cf)) (getSettings cf ''PSPlaceOpenBrace'')"
proof -
  let ?a = "''OnSameLine = $'' @ showBool (openBraceOnSameLine cf)"
  let ?b = "''NewLineAfter = $'' @ showBool (newLineAfterOpenBrace cf)"
  have a: "ruleProperty cf ''PSPlaceOpenBrace'' =
      (''PSPlaceOpenBrace = @'' @ ''{'' @ lf @ indent 20 @ ''Enable = $true'' @ lf @ indent 20)
      @ ?a @ (lf @ indent 20 @ ?b @ lf @ indent 16 @ ''}'')"
    by (simp add: ruleProperty_def)
  have b: "ruleProperty cf ''PSPlaceOpenBrace'' =
      (''PSPlaceOpenBrace = @'' @ ''{'' @ lf @ indent 20 @ ''Enable = $true'' @ lf @ indent 20
        @ ?a @ lf @ indent 20)
      @ ?b @ (lf @ indent 16 @ ''}'')"
    by (simp add: ruleProperty_def)
  show "sublist ?a (getSettings cf ''PSPlaceOpenBrace'')"
    by (rule sublist_getSettings) (subst a, rule sublist_appendI)
  show "sublist ?b (getSettings cf ''PSPlaceOpenBrace'')"
    by (rule sublist_getSettings) (subst b, rule sublist_appendI)
qed

lemma indentation_size:
  "sublist (''IndentationSize = '' @ showInt (indentationSize cf))
     (getSettings cf ''PSUseConsistentIndentation'')"
proof -
  let ?a = "''IndentationSize = '' @ showInt (indentationSize cf)"
  have a: "ruleProperty cf ''PSUseConsistentIndentation'' =
      (''PSUseConsistentIndentation = @'' @ ''{'' @ lf @ indent 20 @ ''Enable = $true'' @ lf
        @ indent 20)
      @ ?a @ (lf @ indent 16 @ ''}'')"
    by (simp add: ruleProperty_def)
  show ?thesis
    by (rule sublist_getSettings) (subst a, rule sublist_appendI)
qed

lemma carries_from:
  assumes "sublist ((key @ '' = '') @ rest) blob"
  shows "carries key blob"
proof -
  have "sublist (key @ '' = '') ((key @ '' = '') @ rest)" by (rule sublist_append_rightI)
  from this assms show ?thesis
    unfolding carries_def by (rule sublist_order.order_trans)
qed

lemma not_carries:
  assumes "c \<in> set key" "c \<notin> set blob"
  shows "\<not> carries key blob"
  unfolding carries_def using assms by (intro not_sublist_char [of c]) simp_all

lemma carries_close_brace:
  "\<not> carries ''OnSameLine'' (getSettings cf ''PSPlaceCloseBrace'')"
  "\<not> carries ''NewLineAfter'' (getSettings cf ''PSPlaceCloseBrace'')"
  "\<not> carries ''IndentationSize'' (getSettings cf ''PSPlaceCloseBrace'')"
proof -
  show "\<not> carries ''OnSameLine'' (getSettings cf ''PSPlaceCloseBrace'')"
    by (rule not_carries [OF _ close_brace_chars(1)]) simp
  show "\<not> carries ''NewLineAfter'' (getSettings cf ''PSPlaceCloseBrace'')"
    by (rule not_carries [OF _ close_brace_chars(2)]) simp
  show "\<not> carries ''IndentationSize'' (getSettings cf ''PSPlaceCloseBrace'')"
    by (rule not_carries [OF _ close_brace_chars(3)]) simp
qed

lemma carries_open_brace:
  "carries ''OnSameLine'' (getSettings cf ''PSPlaceOpenBrace'')"
  "carries ''NewLineAfter'' (getSettings cf ''PSPlaceOpenBrace'')"
  "\<not> carries ''IndentationSize'' (getSettings cf ''PSPlaceOpenBrace'')"
proof -
  have "sublist ((''OnSameLine'' @ '' = '') @ ''$'' @ showBool (openBraceOnSameLine cf))
          (getSettings cf ''PSPlaceOpenBrace'')"
    using open_brace_flags(1) [of cf] by simp
  then show "carries ''OnSameLine'' (getSettings cf ''PSPlaceOpenBrace'')"
    by (rule carries_from)
  have "sublist ((''NewLineAfter'' @ '' = '') @ ''$'' @ showBool (newLineAfterOpenBrace cf))
          (getSettings cf ''PSPlaceOpenBrace'')"
    using open_brace_flags(2) [of cf] by simp
  then show "carries ''NewLineAfter'' (getSettings cf ''PSPlaceOpenBrace'')"
    by (rule carries_from)
  show "\<not> carries ''IndentationSize'' (getSettings cf ''PSPlaceOpenBrace'')"
    by (rule not_carries [OF _ open_brace_chars]) simp
qed

lemma carries_indentation:
  "\<not> carries ''OnSameLine'' (getSettings cf ''PSUseConsistentIndentation'')"
  "\<not> carries ''NewLineAfter'' (getSettings cf ''PSUseConsistentIndentation'')"
  "carries ''IndentationSize'' (getSettings cf ''PSUseConsistentIndentation'')"
proof -
  show "\<not> carries ''OnSameLine'' (getSettings cf ''PSUseConsistentIndentation'')"
    by (rule not_carries [OF _ indentation_chars(1)]) simp
  show "\<not> carries ''NewLineAfter'' (getSettings cf ''PSUseConsistentIndentation'')"
    by (rule not_carries [OF _ indentation_chars(2)]) simp
  have "sublist ((''IndentationSize'' @ '' = '') @ showInt (indentationSize cf))
          (getSettings cf ''PSUseConsistentIndentation'')"
    using indentation_size [of cf] by simp
  then show "carries ''IndentationSize'' (getSettings cf ''PSUseConsistentIndentation'')"
    by (rule carries_from)
qed

lemma deduplicateBy_lines:
  assumes "deduplicateBy line ms = Inr kept"
  shows "distinct (map line kept) \<and> sorted_wrt (lineAbove line) kept"
proof -
  let ?k = "lineKey line"
  from deduplicateBy_cases [OF assms] show ?thesis
  proof
    assume "length ms \<le> 1 \<and> kept = ms"
    then have "kept = [] \<or> (\<exists>x. kept = [x])"
      by (cases kept; cases "tl kept") auto
    then show ?thesis by auto
  next
    assume h: "(\<forall>x\<in>set ms. line x = Inr (?k x)) \<and> mset kept \<subseteq># mset ms \<and> kept \<noteq> []
          \<and> sorted_wrt (>) (map ?k kept)"
    then have ok: "\<forall>x\<in>set kept. line x = Inr (?k x)"
      by (meson mset_subset_eqD in_multiset_in_set)
    then have e: "map line kept = map (\<lambda>x. Inr (?k x)) kept" by simp
    have "distinct (map ?k kept)" using h strict_desc_distinct by blast
    then have "distinct (map (Inr :: int \<Rightarrow> js_error + int) (map ?k kept))"
      by (simp add: distinct_map inj_on_def)
    then have d: "distinct (map line kept)" unfolding e by (simp add: comp_def)
    have "sorted_wrt (\<lambda>a b. ?k b < ?k a) kept"
      using h by (simp add: sorted_wrt_map)
    then have "sorted_wrt (lineAbove line) kept"
      by (rule sorted_wrt_mono_rel [rotated]) (use ok in \<open>simp add: lineAbove_def\<close>)
    with d show ?thesis by simp
  qed
qed

lemma deduplicateBy_total:
  assumes "\<forall>x\<in>set ms. \<exists>v. line x = Inr v"
  shows "\<exists>kept. deduplicateBy line ms = Inr kept"
proof -
  let ?k = "lineKey line"
  have ok: "\<forall>x\<in>set ms. line x = Inr (?k x)"
    using assms by (auto simp: lineKey_def)
  have s: "arraySort (compareLines line) ms = Inr (sort_key (\<lambda>x. - ?k x) ms)"
    by (rule arraySort_total [OF ok])
  show ?thesis
  proof (cases "sort_key (\<lambda>x. - ?k x) ms")
    case Nil
    with s show ?thesis by (simp add: deduplicateBy_def filterUnique_def)
  next
    case (Cons a rest)
    have "\<forall>x\<in>set [a] \<union> set rest. line x = Inr (?k x)"
      using ok Cons by (metis Un_iff empty_iff empty_set set_ConsD set_sort list.set_intros(1) list.set_intros(2))
    from pushUnique_total [OF this] obtain r where "pushUnique line [a] rest = Inr ([a] @ r)"
      by blast
    with s Cons show ?thesis by (simp add: deduplicateBy_def filterUnique_def)
  qed
qed

lemma firstEditStartLine_read:
  "firstEdit m \<noteq> None \<Longrightarrow> \<exists>v. firstEditStartLine m = Inr v"
  by (auto simp: firstEditStartLine_def startLineOf_def)

lemmas dedup_defs =
  deduplicate_def deduplicateBy_def compareLines_def filterUnique_def firstEditStartLine_def
  firstEdit_def startLineOf_def markerAt_def

lemma deduplicate_kept_firstEdits:
  assumes "map firstEdit ms = map firstEdit ms'"
    and "deduplicate ms = Inr kept" and "deduplicate ms' = Inr kept'"
  shows "map firstEdit kept = map firstEdit kept'"
proof -
  have "mapResult (map firstEdit) (deduplicate ms) = mapResult (map firstEdit) (deduplicate ms')"
    unfolding deduplicate_firstEdits assms(1) ..
  then show ?thesis using assms(2,3) by simp
qed

lemma length_ruleOrder: "length ruleOrder = 3"
  by (simp add: ruleOrder_def)

lemmas run_defs =
  provideDocumentFormattingEdits_def executeRulesInOrder.simps rulePass_def applyEdit.simps
  featureProvider_def newProvider_def setLanguageClient_def notNull_def length_ruleOrder
  demoHost_def demoDocument_def freshWorld_def acceptingEditor_def
  compareLines_def filterUnique_def firstEditStartLine_def firstEdit_def startLineOf_def
  markerAt_def nextIndex_def adopt_def editCall_def Let_def

lemma executeRulesInOrder_step:
  assumes "languageClient p = JsObject client" "index < length ruleOrder"
    and "rulePass h p client document index w = (Inr nxt, w1)"
  shows "executeRulesInOrder (Suc fuel) h p document options index w
         = (ReturnsThenable (adopt (fst (executeRulesInOrder fuel h p document options nxt w1))),
            snd (executeRulesInOrder fuel h p document options nxt w1))"
  using assms
  by (subst executeRulesInOrder.simps) (simp add: notNull_def Let_def)

section \<open>Lemmas: the editor's state and the end of a run\<close>

lemma applyEdit_effect:
  assumes "applyEdit h p ms i r w = (res, w')" "i \<le> length ms"
  shows "\<exists>n. i \<le> n \<and> n \<le> length ms
           \<and> (\<forall>j. i \<le> j \<and> j < n \<longrightarrow> firstEdit (ms ! j) \<noteq> None)
           \<and> trace w' = trace w @ map (\<lambda>j. Replaced (callAt p ms r j)) [i ..< n]
           \<and> ((\<exists>u. res = Inr u) \<longrightarrow> n = length ms)
           \<and> (\<forall>editor. activeTextEditor h = JsObject editor \<longrightarrow>
                 outside w' = foldl (\<lambda>s j. snd (editor (callAt p ms r j) s)) (outside w) [i ..< n])
           \<and> ((\<forall>editor. activeTextEditor h \<noteq> JsObject editor) \<longrightarrow>
                 n = i \<and> outside w' = outside w \<and> (i < length ms \<longrightarrow> res = Inl TypeError))"
  using assms
proof (induction h p ms i r w arbitrary: res w' rule: applyEdit.induct)
  case (1 h p markers markerIndex ruleIndex w)
  note unfold = applyEdit.simps [of h p markers markerIndex ruleIndex w]
  show ?case
  proof (cases "markerIndex \<ge> length markers")
    case True
    with "1.prems" have "w' = w" "markerIndex = length markers"
      unfolding unfold by auto
    then show ?thesis by (intro exI [of _ markerIndex]) auto
  next
    case False
    show ?thesis
    proof (cases "activeTextEditor h")
      case (JsObject editor)
      show ?thesis
      proof (cases "firstEdit (markers ! markerIndex)")
        case None
        with "1.prems" False JsObject have "w' = w" "res = Inl TypeError"
          unfolding unfold by auto
        then show ?thesis using "1.prems"(2) JsObject by (intro exI [of _ markerIndex]) auto
      next
        case (Some edit)
        define call where "call = editCall p (length markers) markerIndex ruleIndex edit"
        define answer where "answer = editor call (outside w)"
        define w1 where "w1 = \<lparr>outside = snd answer, trace = trace w @ [Replaced call]\<rparr>"
        have c: "call = callAt p markers ruleIndex markerIndex"
          by (simp add: call_def callAt_def Some)
        show ?thesis
        proof (cases "fst answer")
          case (Inl err)
          with "1.prems" False JsObject Some have "w' = w1" "res = Inl err"
            unfolding unfold by (auto simp: Let_def w1_def answer_def call_def)
          then have "trace w' = trace w @ map (\<lambda>j. Replaced (callAt p markers ruleIndex j)) [markerIndex ..< Suc markerIndex]"
            by (simp add: w1_def c)
          moreover have "\<forall>j. markerIndex \<le> j \<and> j < Suc markerIndex \<longrightarrow> firstEdit (markers ! j) \<noteq> None"
            using Some by (metis le_antisym less_Suc_eq_le option.distinct(1))
          moreover have "outside w' = foldl (\<lambda>s j. snd (editor (callAt p markers ruleIndex j) s)) (outside w)
                           [markerIndex ..< Suc markerIndex]"
            using \<open>w' = w1\<close> by (simp add: w1_def answer_def c)
          ultimately show ?thesis
            using False \<open>res = Inl err\<close> JsObject
            by (intro exI [of _ "Suc markerIndex"]) auto
        next
          case (Inr isEditApplied)
          have rec: "applyEdit h p markers (markerIndex + 1) ruleIndex w1 = (res, w')"
            using "1.prems" False JsObject Some Inr
            unfolding unfold by (auto simp: Let_def w1_def answer_def call_def)
          have "markerIndex + 1 \<le> length markers" using False by simp
          from "1.IH" [OF False JsObject Some call_def answer_def w1_def Inr rec this]
          obtain n where n: "markerIndex + 1 \<le> n" "n \<le> length markers"
            "\<forall>j. markerIndex + 1 \<le> j \<and> j < n \<longrightarrow> firstEdit (markers ! j) \<noteq> None"
            "trace w' = trace w1 @ map (\<lambda>j. Replaced (callAt p markers ruleIndex j)) [markerIndex + 1 ..< n]"
            "(\<exists>u. res = Inr u) \<longrightarrow> n = length markers"
            "outside w' = foldl (\<lambda>s j. snd (editor (callAt p markers ruleIndex j) s)) (outside w1)
                            [markerIndex + 1 ..< n]"
            using JsObject by blast
          have u: "[markerIndex ..< n] = markerIndex # [markerIndex + 1 ..< n]"
            using n(1) by (simp add: upt_conv_Cons)
          then have "trace w' = trace w @ map (\<lambda>j. Replaced (callAt p markers ruleIndex j)) [markerIndex ..< n]"
            using n(4) by (simp add: w1_def c)
          moreover have "\<forall>j. markerIndex \<le> j \<and> j < n \<longrightarrow> firstEdit (markers ! j) \<noteq> None"
            using n(3) Some by (metis Suc_eq_plus1 Suc_leI le_neq_implies_less option.distinct(1))
          moreover have "outside w' = foldl (\<lambda>s j. snd (editor (callAt p markers ruleIndex j) s)) (outside w)
                            [markerIndex ..< n]"
            unfolding u n(6) by (simp add: w1_def answer_def c)
          ultimately show ?thesis
            using n(1,2,5) JsObject by (intro exI [of _ n]) auto
        qed
      qed
    next
      case JsUndefined
      with "1.prems" False have "w' = w" "res = Inl TypeError"
        unfolding unfold by auto
      then show ?thesis using "1.prems"(2) JsUndefined False by (intro exI [of _ markerIndex]) auto
    next
      case JsNull
      with "1.prems" False have "w' = w" "res = Inl TypeError"
        unfolding unfold by auto
      then show ?thesis using "1.prems"(2) JsNull False by (intro exI [of _ markerIndex]) auto
    qed
  qed
qed

lemma applyEdit_completes:
  assumes "activeTextEditor h = JsObject editor"
    and "\<forall>c s. \<exists>b. fst (editor c s) = Inr b"
    and "\<forall>m\<in>set ms. firstEdit m \<noteq> None"
  shows "fst (applyEdit h p ms i r w) = Inr ()"
  using assms
proof (induction h p ms i r w rule: applyEdit.induct)
  case (1 h p markers markerIndex ruleIndex w)
  note unfold = applyEdit.simps [of h p markers markerIndex ruleIndex w]
  show ?case
  proof (cases "markerIndex \<ge> length markers")
    case True
    then show ?thesis unfolding unfold by simp
  next
    case False
    then have "firstEdit (markers ! markerIndex) \<noteq> None"
      using "1.prems"(3) by simp
    then obtain edit where e: "firstEdit (markers ! markerIndex) = Some edit" by auto
    define call where "call = editCall p (length markers) markerIndex ruleIndex edit"
    define answer where "answer = editor call (outside w)"
    define w1 where "w1 = \<lparr>outside = snd answer, trace = trace w @ [Replaced call]\<rparr>"
    from "1.prems"(2) obtain b where b: "fst answer = Inr b"
      unfolding answer_def by blast
    have "fst (applyEdit h p markers (markerIndex + 1) ruleIndex w1) = Inr ()"
      using "1.IH" [OF False "1.prems"(1) e call_def answer_def w1_def b "1.prems"] .
    then show ?thesis
      unfolding unfold using False "1.prems"(1) e b
      by (simp add: Let_def call_def [symmetric] answer_def [symmetric] w1_def [symmetric])
  qed
qed

lemmas record_defs =
  applyEdit.simps editCall_def recordingHost_def recordingEditor_def
  featureProvider_def newProvider_def firstEdit_def markerAt_def Let_def












section \<open>The claims\<close>

text \<open>
  C1. For every batch of markers, the subset the Deduplicator keeps holds at most one
  marker for each starting line of a first edit, it is taken from the batch, and it is
  not longer than the batch. The Deduplicator keeps such a subset for every batch
  whose markers all have a first edit.
\<close>

theorem deduplicate_one_per_line:
  "(\<forall>kept. deduplicate markers = Inr kept \<longrightarrow>
       distinct (map firstEditStartLine kept)
     \<and> mset kept \<subseteq># mset markers
     \<and> length kept \<le> length markers)
 \<and> ((\<forall>m\<in>set markers. firstEdit m \<noteq> None) \<longrightarrow> (\<exists>kept. deduplicate markers = Inr kept))"
proof -
  have "\<exists>kept. deduplicate markers = Inr kept" if "\<forall>m\<in>set markers. firstEdit m \<noteq> None"
    unfolding deduplicate_def
    using that by (intro deduplicateBy_total) (simp add: firstEditStartLine_read)
  then show ?thesis
    unfolding deduplicate_def
    using deduplicateBy_lines deduplicateBy_subset deduplicateBy_length by blast
qed

theorem deduplicate_one_per_line_witness:
  "deduplicate scenarioA = Inr [markerAt 10 ''first'', markerAt 5 ''third'']
 \<and> distinct (map firstEditStartLine [markerAt 10 ''first'', markerAt 5 ''third''])
 \<and> length [markerAt 10 ''first'', markerAt 5 ''third''] \<le> length scenarioA"
proof -
  have d: "deduplicate scenarioA = Inr [markerAt 10 ''first'', markerAt 5 ''third'']"
    by (simp add: scenarioA_def dedup_defs)
  with deduplicate_one_per_line [of scenarioA] show ?thesis by simp
qed

text \<open>
  C2. When the pass for the rule at \<open>index\<close> has run to its end, the scheduler
  calls itself with the same index if and only if the Deduplicator kept strictly fewer
  markers than the response held, and with \<open>index + 1\<close> otherwise; the Thenable it
  returned follows that call. So the requests of a whole run name the rules in the
  order of the rule list: the first is for rule 0, and each request is for the rule of
  the request before it or for the next one.
\<close>

theorem scheduler_order:
  "(\<forall>nxt w1.
       languageClient p = JsObject client \<and> index < length ruleOrder
       \<and> rulePass h p client document index w = (Inr nxt, w1) \<longrightarrow>
       (\<exists>result kept.
           fst (client \<lparr>filePath = fileName document,
                        settings = getSettings (loadedSettings h) (ruleOrder ! index)\<rparr> (outside w))
             = Inr result
         \<and> deduplicate result = Inr kept
         \<and> (nxt = index \<longleftrightarrow> length kept < length result)
         \<and> (nxt \<noteq> index \<longrightarrow> nxt = index + 1)
         \<and> executeRulesInOrder (Suc fuel) h p document options index w
             = (ReturnsThenable (adopt (fst (executeRulesInOrder fuel h p document options nxt w1))),
                snd (executeRulesInOrder fuel h p document options nxt w1))))
 \<and> (\<exists>vs. requestedIndices
             (trace (snd (provideDocumentFormattingEdits fuel h p document options token w)))
           = requestedIndices (trace w) @ vs
       \<and> (vs = [] \<or> hd vs = 0)
       \<and> successively (\<lambda>a b. b = a \<or> b = a + 1) vs
       \<and> (\<forall>v\<in>set vs. v < length ruleOrder))"
proof (intro conjI allI impI)
  fix nxt w1
  assume a: "languageClient p = JsObject client \<and> index < length ruleOrder
       \<and> rulePass h p client document index w = (Inr nxt, w1)"
  then have pass: "rulePass h p client document index w = (Inr nxt, w1)"
    and cl: "languageClient p = JsObject client" and ix: "index < length ruleOrder"
    by blast+
  from rulePass_next [OF pass] obtain result kept where r:
    "fst (client \<lparr>filePath = fileName document,
                        settings = getSettings (loadedSettings h) (ruleOrder ! index)\<rparr> (outside w))
             = Inr result"
    "deduplicate result = Inr kept"
    "nxt = (if length kept < length result then index else index + 1)"
    by blast
  have s: "executeRulesInOrder (Suc fuel) h p document options index w
         = (ReturnsThenable (adopt (fst (executeRulesInOrder fuel h p document options nxt w1))),
            snd (executeRulesInOrder fuel h p document options nxt w1))"
    using cl ix pass by (rule executeRulesInOrder_step)
  have "(nxt = index \<longleftrightarrow> length kept < length result) \<and> (nxt \<noteq> index \<longrightarrow> nxt = index + 1)"
    using r(3) by simp
  with r(1,2) s
  show "\<exists>result kept.
           fst (client \<lparr>filePath = fileName document,
                        settings = getSettings (loadedSettings h) (ruleOrder ! index)\<rparr> (outside w))
             = Inr result
         \<and> deduplicate result = Inr kept
         \<and> (nxt = index \<longleftrightarrow> length kept < length result)
         \<and> (nxt \<noteq> index \<longrightarrow> nxt = index + 1)
         \<and> executeRulesInOrder (Suc fuel) h p document options index w
             = (ReturnsThenable (adopt (fst (executeRulesInOrder fuel h p document options nxt w1))),
                snd (executeRulesInOrder fuel h p document options nxt w1))"
    by blast
next
  show "\<exists>vs. requestedIndices
             (trace (snd (provideDocumentFormattingEdits fuel h p document options token w)))
           = requestedIndices (trace w) @ vs
       \<and> (vs = [] \<or> hd vs = 0)
       \<and> successively (\<lambda>a b. b = a \<or> b = a + 1) vs
       \<and> (\<forall>v\<in>set vs. v < length ruleOrder)"
    unfolding provideDocumentFormattingEdits_def
    by (rule executeRulesInOrder_requested)
qed

theorem scheduler_order_witness:
  "fst (rulePass demoHost (setLanguageClient (JsObject collidingClient) featureProvider)
          collidingClient demoDocument 0 freshWorld) = Inr 0
 \<and> deduplicate [markerAt 10 ''first'', markerAt 10 ''second''] = Inr [markerAt 10 ''first'']
 \<and> fst (rulePass demoHost (setLanguageClient (JsObject collidingClient) featureProvider)
          collidingClient demoDocument 0
          (snd (rulePass demoHost (setLanguageClient (JsObject collidingClient) featureProvider)
                  collidingClient demoDocument 0 freshWorld))) = Inr 1
 \<and> requestedIndices (trace (snd (provideDocumentFormattingEdits 4 demoHost
        (setLanguageClient (JsObject collidingClient) featureProvider) demoDocument () ()
        freshWorld))) = [0, 0, 1, 2]"
proof -
  let ?p = "setLanguageClient (JsObject collidingClient) featureProvider :: nat provider"
  let ?w1 = "snd (rulePass demoHost ?p collidingClient demoDocument 0 freshWorld)"
  have c: "languageClient ?p = JsObject collidingClient"
    by (simp add: setLanguageClient_def)
  have i: "(0::nat) < length ruleOrder" by (simp add: length_ruleOrder)
  have f: "fst (rulePass demoHost ?p collidingClient demoDocument 0 freshWorld) = Inr 0"
    by (simp add: run_defs collidingClient_def)
  then have pass: "rulePass demoHost ?p collidingClient demoDocument 0 freshWorld = (Inr 0, ?w1)"
    by (simp add: prod_eq_iff)
  have f2: "fst (rulePass demoHost ?p collidingClient demoDocument 0 ?w1) = Inr 1"
    by (simp add: run_defs collidingClient_def)
  have d: "deduplicate [markerAt 10 ''first'', markerAt 10 ''second''] = Inr [markerAt 10 ''first'']"
    by (simp add: dedup_defs)
  have t: "requestedIndices (trace (snd (provideDocumentFormattingEdits 4 demoHost ?p
              demoDocument () () freshWorld))) = [0, 0, 1, 2]"
    by (simp add: run_defs collidingClient_def)
  note so = scheduler_order [of ?p collidingClient 0 demoHost demoDocument freshWorld 3 "()" "()"]
  from so c i pass have "\<exists>result kept.
      fst (collidingClient \<lparr>filePath = fileName demoDocument,
              settings = getSettings (loadedSettings demoHost) (ruleOrder ! 0)\<rparr> (outside freshWorld))
        = Inr result
      \<and> deduplicate result = Inr kept \<and> ((0::nat) = 0 \<longleftrightarrow> length kept < length result)"
    by blast
  with f d f2 t show ?thesis by (intro conjI)
qed

text \<open>
  C3. The code at a run in which the first rule needs two passes: the server reports
  two violations on line 10, then the one left over, then nothing for the two later
  rules. Two edits are applied. Both carry \<open>undoStopBefore = true\<close>, the second as
  well as the first, and neither carries \<open>undoStopAfter = true\<close>, so the last edit of
  the run does not close the undo group. In the run with one violation for each of the
  three rules the first edit alone opens the group and the third alone closes it.
\<close>

theorem undo_stops_on_collision:
  "map (\<lambda>c. (undoStopBefore c, undoStopAfter c))
     (replacedCalls (trace (snd (provideDocumentFormattingEdits 4 demoHost
        (setLanguageClient (JsObject collidingClient) featureProvider) demoDocument () ()
        freshWorld))))
   = [(True, False), (True, False)]
 \<and> fst (provideDocumentFormattingEdits 4 demoHost
        (setLanguageClient (JsObject collidingClient) featureProvider) demoDocument () ()
        freshWorld)
   = ReturnsThenable (Fulfilled TextEdit_0)
 \<and> map (\<lambda>c. (undoStopBefore c, undoStopAfter c))
     (replacedCalls (trace (snd (provideDocumentFormattingEdits 3 demoHost
        (setLanguageClient (JsObject onePerRuleClient) featureProvider) demoDocument () ()
        freshWorld))))
   = [(True, False), (False, False), (False, True)]"
  by (simp add: run_defs collidingClient_def onePerRuleClient_def)

text \<open>
  C4. The code at a provider whose \<^verbatim>\<open>setLanguageClient\<close> was never called: the
  field is undefined, the guard \<^verbatim>\<open>!== null\<close> lets it through, and the call of
  \<^verbatim>\<open>sendRequest\<close> raises a TypeError; nothing is requested. Only a field that was
  set to \<^verbatim>\<open>null\<close> gives the immediate result without a request.
\<close>

theorem unset_client_raises:
  "provideDocumentFormattingEdits fuel h featureProvider document options token w
     = (Throws TypeError, w)
 \<and> provideDocumentFormattingEdits fuel h (setLanguageClient JsNull featureProvider)
       document options token w
     = (Returns TextEdit_0, w)"
  by (simp add: provideDocumentFormattingEdits_def executeRulesInOrder.simps featureProvider_def
      newProvider_def setLanguageClient_def notNull_def length_ruleOrder)




text \<open>
  C6. The subset the Deduplicator keeps is sorted strictly descending by the starting
  line of each marker's first edit: of two kept markers the earlier has the greater
  line number.
\<close>

theorem deduplicate_strictly_descending:
  assumes "deduplicate markers = Inr kept"
  shows "sorted_wrt (lineAbove firstEditStartLine) kept"
  using assms deduplicateBy_lines unfolding deduplicate_def by blast

theorem deduplicate_strictly_descending_witness:
  "deduplicate [markerAt 5 ''third'', markerAt 10 ''first'', markerAt 7 ''second'']
     = Inr [markerAt 10 ''first'', markerAt 7 ''second'', markerAt 5 ''third'']
 \<and> sorted_wrt (lineAbove firstEditStartLine)
      [markerAt 10 ''first'', markerAt 7 ''second'', markerAt 5 ''third'']"
proof -
  have d: "deduplicate [markerAt 5 ''third'', markerAt 10 ''first'', markerAt 7 ''second'']
     = Inr [markerAt 10 ''first'', markerAt 7 ''second'', markerAt 5 ''third'']"
    by (simp add: dedup_defs)
  from deduplicate_strictly_descending [OF d] d show ?thesis by simp
qed

text \<open>
  C7. The Deduplicator is idempotent: run on the subset it kept, it returns that
  subset, the same markers in the same order.
\<close>

theorem deduplicate_idempotent:
  assumes "deduplicate markers = Inr kept"
  shows "deduplicate kept = Inr kept"
  using assms unfolding deduplicate_def by (rule deduplicateBy_idem)

theorem deduplicate_idempotent_witness:
  "deduplicate scenarioA = Inr [markerAt 10 ''first'', markerAt 5 ''third'']
 \<and> deduplicate [markerAt 10 ''first'', markerAt 5 ''third'']
     = Inr [markerAt 10 ''first'', markerAt 5 ''third'']"
proof -
  have d: "deduplicate scenarioA = Inr [markerAt 10 ''first'', markerAt 5 ''third'']"
    by (simp add: scenarioA_def dedup_defs)
  from deduplicate_idempotent [OF d] d show ?thesis by simp
qed

text \<open>
  C8. The replacements the applicator hands to the editor are, in order, those of the
  first edits of the markers it was given: the range is the first edit's start and end
  line and column, each less one, and the text is the first edit's text. The state of
  editor and buffer after the applicator is the state before it with exactly these
  calls made on the active editor, in order. When the applicator completes there is one
  such replacement for every marker; when it stops on an error, for the markers before
  the one it stopped at. It does complete when every marker has a first edit and the
  editor accepts every call; without an active editor it makes no call and, given a
  marker, raises. Nothing else is added to the trace, so no later edit of a correction
  is applied.
\<close>

theorem applyEdit_replaces_first_edit:
  assumes "applyEdit h p markers 0 ruleIndex w = (res, w')"
  shows "\<exists>es calls.
           trace w' = trace w @ map Replaced calls
         \<and> map Some es = take (length es) (map firstEdit markers)
         \<and> ((\<exists>u. res = Inr u) \<longrightarrow> length es = length markers)
         \<and> map (\<lambda>c. (editRange c, editText c)) calls
             = map (\<lambda>e. (\<lparr>startLine = startLineNumber e - 1,
                            startCharacter = startColumnNumber e - 1,
                            endLine = endLineNumber e - 1,
                            endCharacter = endColumnNumber e - 1\<rparr>,
                          regionText e)) es
         \<and> (\<forall>editor. activeTextEditor h = JsObject editor \<longrightarrow>
               outside w' = foldl (\<lambda>s c. snd (editor c s)) (outside w) calls
             \<and> ((\<forall>c s. \<exists>b. fst (editor c s) = Inr b) \<and> (\<forall>m\<in>set markers. firstEdit m \<noteq> None)
                  \<longrightarrow> res = Inr ()))
         \<and> ((\<forall>editor. activeTextEditor h \<noteq> JsObject editor) \<longrightarrow>
               calls = [] \<and> outside w' = outside w \<and> (markers \<noteq> [] \<longrightarrow> res = Inl TypeError))"
proof -
  from applyEdit_effect [OF assms] obtain n where n:
    "n \<le> length markers"
    "\<forall>j. j < n \<longrightarrow> firstEdit (markers ! j) \<noteq> None"
    "trace w' = trace w @ map (\<lambda>j. Replaced (callAt p markers ruleIndex j)) [0 ..< n]"
    "(\<exists>u. res = Inr u) \<longrightarrow> n = length markers"
    "\<forall>editor. activeTextEditor h = JsObject editor \<longrightarrow>
       outside w' = foldl (\<lambda>s j. snd (editor (callAt p markers ruleIndex j) s)) (outside w) [0 ..< n]"
    "(\<forall>editor. activeTextEditor h \<noteq> JsObject editor) \<longrightarrow>
       n = 0 \<and> outside w' = outside w \<and> (0 < length markers \<longrightarrow> res = Inl TypeError)"
    by auto
  define es where "es = map (\<lambda>j. the (firstEdit (markers ! j))) [0 ..< n]"
  define calls where "calls = map (callAt p markers ruleIndex) [0 ..< n]"
  have t: "trace w' = trace w @ map Replaced calls"
    using n(3) by (simp add: calls_def comp_def)
  have "map Some es = map (\<lambda>j. firstEdit (markers ! j)) [0 ..< n]"
    using n(2) by (auto simp: es_def)
  also have "\<dots> = take n (map firstEdit markers)"
    using n(1) by (intro nth_equalityI) simp_all
  finally have p: "map Some es = take (length es) (map firstEdit markers)"
    by (simp add: es_def)
  have l: "(\<exists>u. res = Inr u) \<longrightarrow> length es = length markers"
    using n(4) by (simp add: es_def)
  have c: "map (\<lambda>c. (editRange c, editText c)) calls
             = map (\<lambda>e. (\<lparr>startLine = startLineNumber e - 1,
                            startCharacter = startColumnNumber e - 1,
                            endLine = endLineNumber e - 1,
                            endCharacter = endColumnNumber e - 1\<rparr>,
                          regionText e)) es"
    by (simp add: calls_def es_def callAt_def editCall_def)
  have o: "outside w' = foldl (\<lambda>s c. snd (editor c s)) (outside w) calls"
    if "activeTextEditor h = JsObject editor" for editor
    using n(5) that by (simp add: calls_def foldl_map)
  have d: "res = Inr ()"
    if "activeTextEditor h = JsObject editor" "\<forall>c s. \<exists>b. fst (editor c s) = Inr b"
       "\<forall>m\<in>set markers. firstEdit m \<noteq> None" for editor
    using applyEdit_completes [OF that, of p 0 ruleIndex w] assms by simp
  have x: "calls = [] \<and> outside w' = outside w \<and> (markers \<noteq> [] \<longrightarrow> res = Inl TypeError)"
    if "\<forall>editor. activeTextEditor h \<noteq> JsObject editor"
    using n(6) that by (simp add: calls_def)
  from t p l c o d x show ?thesis by blast
qed

theorem applyEdit_replaces_first_edit_witness:
  "applyEdit recordingHost featureProvider
      [restated (markerAt 10 ''first''), restated (markerAt 5 ''third'')] 0 0
      \<lparr>outside = [], trace = []\<rparr>
   = (Inr (),
      \<lparr>outside =
         [(\<lparr>startLine = 9, startCharacter = 0, endLine = 9, endCharacter = 2\<rparr>, ''first''),
          (\<lparr>startLine = 4, startCharacter = 0, endLine = 4, endCharacter = 2\<rparr>, ''third'')],
       trace =
         [Replaced \<lparr>editRange = \<lparr>startLine = 9, startCharacter = 0, endLine = 9, endCharacter = 2\<rparr>,
                    editText = ''first'', undoStopAfter = False, undoStopBefore = True\<rparr>,
          Replaced \<lparr>editRange = \<lparr>startLine = 4, startCharacter = 0, endLine = 4, endCharacter = 2\<rparr>,
                    editText = ''third'', undoStopAfter = False, undoStopBefore = False\<rparr>]\<rparr>)"
proof -
  have e: "applyEdit recordingHost featureProvider
      [restated (markerAt 10 ''first''), restated (markerAt 5 ''third'')] 0 0
      \<lparr>outside = [], trace = []\<rparr>
   = (Inr (),
      \<lparr>outside =
         [(\<lparr>startLine = 9, startCharacter = 0, endLine = 9, endCharacter = 2\<rparr>, ''first''),
          (\<lparr>startLine = 4, startCharacter = 0, endLine = 4, endCharacter = 2\<rparr>, ''third'')],
       trace =
         [Replaced \<lparr>editRange = \<lparr>startLine = 9, startCharacter = 0, endLine = 9, endCharacter = 2\<rparr>,
                    editText = ''first'', undoStopAfter = False, undoStopBefore = True\<rparr>,
          Replaced \<lparr>editRange = \<lparr>startLine = 4, startCharacter = 0, endLine = 4, endCharacter = 2\<rparr>,
                    editText = ''third'', undoStopAfter = False, undoStopBefore = False\<rparr>]\<rparr>)"
    by (simp add: record_defs restated_def ruleOrder_def)
  from applyEdit_replaces_first_edit [OF e] e show ?thesis by simp
qed

text \<open>
  C9, as amended. For every rule of the fixed rule order the settings string carries
  the setting \<open>Enable\<close>. It carries the boolean flags \<open>OnSameLine\<close> and
  \<open>NewLineAfter\<close>, with the values of the settings object, exactly for the rule
  that places the open brace, \<^verbatim>\<open>PSPlaceOpenBrace\<close>; it carries the numeric
  \<open>IndentationSize\<close> exactly for \<^verbatim>\<open>PSUseConsistentIndentation\<close>. The rule that
  places the close brace, \<^verbatim>\<open>PSPlaceCloseBrace\<close>, carries the enable flag only.
\<close>

theorem getSettings_shape:
  "\<forall>rule\<in>set ruleOrder.
      carries ''Enable'' (getSettings cf rule)
    \<and> (carries ''OnSameLine'' (getSettings cf rule) \<longleftrightarrow> rule = ''PSPlaceOpenBrace'')
    \<and> (carries ''NewLineAfter'' (getSettings cf rule) \<longleftrightarrow> rule = ''PSPlaceOpenBrace'')
    \<and> (carries ''IndentationSize'' (getSettings cf rule) \<longleftrightarrow> rule = ''PSUseConsistentIndentation'')
    \<and> (rule = ''PSPlaceOpenBrace'' \<longrightarrow>
          sublist (''OnSameLine = $'' @ showBool (openBraceOnSameLine cf)) (getSettings cf rule)
        \<and> sublist (''NewLineAfter = $'' @ showBool (newLineAfterOpenBrace cf)) (getSettings cf rule))
    \<and> (rule = ''PSUseConsistentIndentation'' \<longrightarrow>
          sublist (''IndentationSize = '' @ showInt (indentationSize cf)) (getSettings cf rule))"
  unfolding ruleOrder_def
  using carries_close_brace [of cf] carries_open_brace [of cf] carries_indentation [of cf]
    carries_Enable [of cf] open_brace_flags [of cf] indentation_size [of cf]
  by simp

theorem getSettings_shape_witness:
  "carries ''OnSameLine'' (getSettings (loadedSettings demoHost) ''PSPlaceOpenBrace'')
 \<and> \<not> carries ''OnSameLine'' (getSettings (loadedSettings demoHost) ''PSPlaceCloseBrace'')
 \<and> sublist ''IndentationSize = 4'' (getSettings (loadedSettings demoHost) ''PSUseConsistentIndentation'')
 \<and> sublist ''OnSameLine = $true'' (getSettings (loadedSettings demoHost) ''PSPlaceOpenBrace'')
 \<and> sublist ''NewLineAfter = $false'' (getSettings (loadedSettings demoHost) ''PSPlaceOpenBrace'')"
proof -
  have s: "showInt 4 = ''4''" "showBool True = ''true''" "showBool False = ''false''"
    by (simp_all add: showInt_def showNat.simps showBool_def)
  have m: "''PSPlaceOpenBrace'' \<in> set ruleOrder" "''PSPlaceCloseBrace'' \<in> set ruleOrder"
    "''PSUseConsistentIndentation'' \<in> set ruleOrder"
    by (simp_all add: ruleOrder_def)
  show ?thesis
    using getSettings_shape [of "loadedSettings demoHost", THEN bspec, OF m(1)]
      getSettings_shape [of "loadedSettings demoHost", THEN bspec, OF m(2)]
      getSettings_shape [of "loadedSettings demoHost", THEN bspec, OF m(3)]
    by (simp add: demoHost_def s)
qed

text \<open>
  C9 as stated fails for a brace-placement rule of the rule order: the settings string
  of \<^verbatim>\<open>PSPlaceCloseBrace\<close> carries neither of the two flags.
\<close>

theorem brace_rules_flags_counterexample:
  "''PSPlaceCloseBrace'' \<in> set ruleOrder
 \<and> \<not> carries ''OnSameLine'' (getSettings (loadedSettings demoHost) ''PSPlaceCloseBrace'')
 \<and> \<not> carries ''NewLineAfter'' (getSettings (loadedSettings demoHost) ''PSPlaceCloseBrace'')
 \<and> getSettings (loadedSettings demoHost) ''PSPlaceCloseBrace''
     = ''@'' @ ''{'' @ lf
       @ ''    IncludeRules = @('' @ [CHR 0x27] @ ''PSPlaceCloseBrace'' @ [CHR 0x27] @ '')'' @ lf
       @ ''    Rules = @'' @ ''{'' @ lf
       @ ''                PSPlaceCloseBrace = @'' @ ''{'' @ lf
       @ ''                    Enable = $true'' @ lf
       @ ''                }'' @ lf
       @ ''    }'' @ lf
       @ ''}''"
proof -
  have "getSettings (loadedSettings demoHost) ''PSPlaceCloseBrace''
     = ''@'' @ ''{'' @ lf
       @ ''    IncludeRules = @('' @ [CHR 0x27] @ ''PSPlaceCloseBrace'' @ [CHR 0x27] @ '')'' @ lf
       @ ''    Rules = @'' @ ''{'' @ lf
       @ ''                PSPlaceCloseBrace = @'' @ ''{'' @ lf
       @ ''                    Enable = $true'' @ lf
       @ ''                }'' @ lf
       @ ''    }'' @ lf
       @ ''}''"
    by (simp add: getSettings_def ruleProperty_def indent_def eval_nat_numeral)
  moreover have "''PSPlaceCloseBrace'' \<in> set ruleOrder" by (simp add: ruleOrder_def)
  ultimately show ?thesis
    using carries_close_brace [of "loadedSettings demoHost"] by (intro conjI)
qed

text \<open>
  C10. Two batches that agree, index by index, on the first edit of each marker's
  correction have the same kept positions: the Deduplicator keeps the markers at
  exactly those positions of either batch, or raises the same error for both. From the
  same state of editor and buffer the applicator then does the same for what was kept
  of either batch, call for call. Message, level and every later edit of a correction
  play no part.
\<close>

theorem first_edit_decides:
  assumes "map firstEdit ms = map firstEdit ms'"
  shows "keptPositions ms = keptPositions ms'
       \<and> deduplicate ms = mapResult (map (\<lambda>i. ms ! i)) (keptPositions ms)
       \<and> deduplicate ms' = mapResult (map (\<lambda>i. ms' ! i)) (keptPositions ms')
       \<and> (\<forall>kept kept'. deduplicate ms = Inr kept \<and> deduplicate ms' = Inr kept' \<longrightarrow>
             applyEdit h p kept 0 ruleIndex w = applyEdit h p kept' 0 ruleIndex w)"
proof -
  have len: "length ms = length ms'" using assms by (rule map_eq_imp_length_eq)
  have "keptPositions ms = keptPositions ms'"
    unfolding keptPositions_firstEdits assms len ..
  moreover have "applyEdit h p kept 0 ruleIndex w = applyEdit h p kept' 0 ruleIndex w"
    if "deduplicate ms = Inr kept" "deduplicate ms' = Inr kept'" for kept kept'
    using deduplicate_kept_firstEdits [OF assms that] by (rule applyEdit_firstEdits)
  ultimately show ?thesis
    using deduplicate_positions [of ms] deduplicate_positions [of ms'] by blast
qed

theorem first_edit_decides_witness:
  "map firstEdit scenarioA = map firstEdit (map restated scenarioA)
 \<and> keptPositions scenarioA = Inr [0, 2]
 \<and> keptPositions (map restated scenarioA) = Inr [0, 2]
 \<and> deduplicate (map restated scenarioA)
     = Inr [restated (markerAt 10 ''first''), restated (markerAt 5 ''third'')]
 \<and> applyEdit demoHost featureProvider [markerAt 10 ''first'', markerAt 5 ''third''] 0 0 freshWorld
     = applyEdit demoHost featureProvider
         [restated (markerAt 10 ''first''), restated (markerAt 5 ''third'')] 0 0 freshWorld"
proof -
  have a: "map firstEdit scenarioA = map firstEdit (map restated scenarioA)"
    by (simp add: scenarioA_def restated_def firstEdit_def markerAt_def)
  have k: "keptPositions scenarioA = Inr [0, 2]"
    by (simp add: keptPositions_def scenarioA_def dedup_defs upt_rec)
  have d: "deduplicate scenarioA = Inr [markerAt 10 ''first'', markerAt 5 ''third'']"
    by (simp add: scenarioA_def dedup_defs)
  have d': "deduplicate (map restated scenarioA)
     = Inr [restated (markerAt 10 ''first''), restated (markerAt 5 ''third'')]"
    by (simp add: scenarioA_def dedup_defs restated_def)
  note fed = first_edit_decides [OF a, of demoHost featureProvider 0 freshWorld]
  from fed k have k': "keptPositions (map restated scenarioA) = Inr [0, 2]"
    by (simp only:)
  from fed d d' have ap:
    "applyEdit demoHost featureProvider [markerAt 10 ''first'', markerAt 5 ''third''] 0 0 freshWorld
     = applyEdit demoHost featureProvider
         [restated (markerAt 10 ''first''), restated (markerAt 5 ''third'')] 0 0 freshWorld"
    by blast
  from a k k' d' ap show ?thesis by (intro conjI)
qed

end
